theory Spec2Isabelle
  imports
    Main
    "HOL-Library.Word"
    "HOL-Library.Multiset"
    "HOL-Library.Char_ord"
    "HOL-Library.List_Lexorder"
    "HOL-Library.Monad_Syntax"
begin

section \<open>The task list engine of tasknc\<close>

text \<open>
  The development embeds the in-memory task list of \<^verbatim>\<open>tasknc.c\<close>: the task record, the
  comparator \<^verbatim>\<open>compare_tasks\<close>, the in-place sort \<^verbatim>\<open>sort_tasks\<close>, the export parser
  \<^verbatim>\<open>parse_task\<close> with its caller \<^verbatim>\<open>get_tasks\<close>, the filter pass \<^verbatim>\<open>filter_tasks\<close>, the
  search walk \<^verbatim>\<open>find_next_search_result\<close> and the cursor check \<^verbatim>\<open>check_curs_pos\<close>.

  Conventions of the embedding.
  \<^item> A \<^verbatim>\<open>char *\<close> is a \<open>string option\<close>: \<open>None\<close> is the NULL pointer, \<open>Some s\<close> holds the
    bytes before the terminating NUL.
  \<^item> The doubly linked list is a \<open>task list\<close>. The sort never relinks a node, it only
    exchanges the payload of two nodes, so a node pointer is the position of the node
    in the list and NULL is \<open>None\<close>; \<^verbatim>\<open>prev\<close> and \<^verbatim>\<open>next\<close> are computed from the position.
  \<^item> \<^verbatim>\<open>unsigned short\<close> is \<open>16 word\<close>, \<^verbatim>\<open>unsigned int\<close> is \<open>32 word\<close>, \<^verbatim>\<open>short\<close> is a
    \<open>16 word\<close> read with \<open>sint\<close>. The \<^verbatim>\<open>int\<close> counters are unbounded integers: they
    count tasks held in memory and stay far below \<open>2 ^ 31\<close>.
\<close>

subsection \<open>The task record\<close>

text \<open>
  \<^verbatim>\<open>struct _task\<close> without its two link fields. \<^verbatim>\<open>is_filtered\<close> is a \<^verbatim>\<open>char\<close> that only
  ever holds 0 or 1 (1: the task passes the filter and is shown); it is a \<open>bool\<close> here,
  and \<open>of_bool\<close> where the code adds it to a counter.
\<close>

record task =
  index :: "16 word"
  uuid :: "string option"
  tags :: "string option"
  start :: "32 word"
  end' :: "32 word"
  entry :: "32 word"
  due :: "32 word"
  project :: "string option"
  priority :: char
  description :: "string option"
  is_filtered :: bool

text \<open>\<^verbatim>\<open>malloc_task\<close>: every field zero, and the task visible.\<close>

definition malloc_task :: task where
  "malloc_task =
     \<lparr>index = 0, uuid = None, tags = None, start = 0, end' = 0, entry = 0, due = 0,
      project = None, priority = CHR 0x00, description = None, is_filtered = True\<rparr>"

subsection \<open>The comparator\<close>

text \<open>
  \<^verbatim>\<open>strcmp\<close> on the bytes before the terminator: the difference of the first two bytes
  that differ, read as \<^verbatim>\<open>unsigned char\<close>, the terminator counting as 0.
\<close>

fun strcmp :: "string \<Rightarrow> string \<Rightarrow> int" where
  "strcmp [] [] = 0"
| "strcmp [] (y # ys) = 0 - int (of_char y)"
| "strcmp (x # xs) [] = int (of_char x)"
| "strcmp (x # xs) (y # ys) =
     (if x = y then strcmp xs ys else int (of_char x) - int (of_char y))"

text \<open>
  \<^verbatim>\<open>compare_tasks\<close>. The cases stand in the order of the \<^verbatim>\<open>switch\<close>: \<^verbatim>\<open>'n'\<close>, then
  \<^verbatim>\<open>default\<close> together with \<^verbatim>\<open>'p'\<close>, then \<^verbatim>\<open>'d'\<close>, then \<^verbatim>\<open>'r'\<close>. The result is the
  \<^verbatim>\<open>char ret\<close>, 0 or 1.
\<close>

function compare_tasks :: "task \<Rightarrow> task \<Rightarrow> char \<Rightarrow> int" where
  "compare_tasks a b sort_mode =
     (if sort_mode = CHR ''n'' then
        (if index a < index b then 1 else 0)
      else if sort_mode \<noteq> CHR ''d'' \<and> sort_mode \<noteq> CHR ''r'' then
        (case project a of
           None \<Rightarrow> (if project b \<noteq> None then 1 else 0)
         | Some pa \<Rightarrow>
             (case project b of
                None \<Rightarrow> 0
              | Some pb \<Rightarrow>
                  (let tmp = strcmp pa pb;
                       ret = (if tmp < 0 then 1 else 0)
                   in if tmp = 0 then compare_tasks a b (CHR ''n'') else ret)))
      else if sort_mode = CHR ''d'' then
        (if due a = 0 then
           (if due b = 0 then compare_tasks a b (CHR ''r'') else 0)
         else if due b = 0 then 1
         else if due a < due b then 1
         else 0)
      else
        (if priority a = CHR 0x00 then
           (if priority b = CHR 0x00 then compare_tasks a b (CHR ''p'') else 0)
         else if priority b = CHR 0x00 then 1
         else if priority a = priority b then compare_tasks a b (CHR ''p'')
         else if priority b = CHR ''M'' then
           (if priority a = CHR ''H'' then 1 else 0)
         else if priority b = CHR ''L'' then
           (if priority a = CHR ''M'' \<or> priority a = CHR ''H'' then 1 else 0)
         else 0))"
  by pat_completeness auto
termination
  by (relation "measure (\<lambda>(a, b, m).
        if m = CHR ''d'' then 3 else if m = CHR ''r'' then 2
        else if m = CHR ''n'' then 0 else (1::nat))") auto

subsection \<open>The sort\<close>

text \<open>
  A node pointer is a position below the length of the list. \<^verbatim>\<open>next\<close> of the tail and
  \<^verbatim>\<open>prev\<close> of the head are NULL.
\<close>

definition next_task :: "task list \<Rightarrow> nat \<Rightarrow> nat option" where
  "next_task ts p = (if Suc p < length ts then Some (Suc p) else None)"

definition prev_task :: "nat \<Rightarrow> nat option" where
  "prev_task p = (if p = 0 then None else Some (p - 1))"

text \<open>
  \<^verbatim>\<open>swap_tasks\<close> exchanges every payload field of the two nodes, \<^verbatim>\<open>index\<close> and
  \<^verbatim>\<open>is_filtered\<close> included, and leaves the links alone.
\<close>

definition swap_tasks :: "nat \<Rightarrow> nat \<Rightarrow> task list \<Rightarrow> task list" where
  "swap_tasks a b ts =
     (let ta = ts ! a; tb = ts ! b in
      ts[a := ta\<lparr>index := index tb, uuid := uuid tb, tags := tags tb, start := start tb,
               end' := end' tb, entry := entry tb, due := due tb, project := project tb,
               priority := priority tb, description := description tb,
               is_filtered := is_filtered tb\<rparr>,
         b := tb\<lparr>index := index ta, uuid := uuid ta, tags := tags ta, start := start ta,
               end' := end' ta, entry := entry ta, due := due ta, project := project ta,
               priority := priority ta, description := description ta,
               is_filtered := is_filtered ta\<rparr>])"

text \<open>
  The scan of \<^verbatim>\<open>sort_tasks\<close>: \<^verbatim>\<open>cur\<close> runs from \<^verbatim>\<open>start->next\<close> to \<^verbatim>\<open>last\<close>, and the payload
  of \<^verbatim>\<open>start\<close> and \<^verbatim>\<open>cur\<close> is exchanged whenever the comparator answers 1. Running off the
  end of the list (a NULL \<^verbatim>\<open>cur\<close> handed to the comparator) is \<open>None\<close>.
\<close>

function sort_scan :: "char \<Rightarrow> nat \<Rightarrow> nat \<Rightarrow> nat \<Rightarrow> task list \<Rightarrow> task list option" where
  "sort_scan sortmode startp lastp cur ts =
     (let ts' = (if compare_tasks (ts ! startp) (ts ! cur) sortmode = 1
                 then swap_tasks startp cur ts else ts)
      in if cur = lastp then Some ts'
         else (case next_task ts cur of
                 None \<Rightarrow> None
               | Some c \<Rightarrow> sort_scan sortmode startp lastp c ts'))"
  by pat_completeness auto
termination
  by (relation "measure (\<lambda>(m, s, l, c, ts). length ts - c)")
     (auto simp: next_task_def swap_tasks_def Let_def split: if_splits)

text \<open>
  \<^verbatim>\<open>sort_tasks\<close>: after the scan \<^verbatim>\<open>cur\<close> is \<^verbatim>\<open>last\<close>; \<^verbatim>\<open>first\<close> and \<^verbatim>\<open>cur\<close> are exchanged, and
  the two sides are sorted under the guards of the source. (\<open>firstp\<close>, \<open>lastp\<close> and
  \<open>startp\<close> are the pointers \<^verbatim>\<open>first\<close>, \<^verbatim>\<open>last\<close> and \<^verbatim>\<open>start\<close>.) The result \<open>None\<close> stands
  for a run that dereferences NULL or does not return; \<open>sort_tasks_total\<close> below shows
  that neither happens on a range of the list.
\<close>

partial_function (option)
  sort_tasks :: "char \<Rightarrow> nat \<Rightarrow> nat \<Rightarrow> task list \<Rightarrow> task list option" where
  "sort_tasks sortmode firstp lastp ts =
     (if firstp = lastp then Some ts
      else do {
        cur0 \<leftarrow> next_task ts firstp;
        ts1 \<leftarrow> sort_scan sortmode firstp lastp cur0 ts;
        let cur = lastp;
        let ts2 = swap_tasks firstp cur ts1;
        let oldcur = cur;
        ts3 \<leftarrow> (case prev_task cur of
                 None \<Rightarrow> Some ts2
               | Some c \<Rightarrow>
                   if prev_task firstp \<noteq> Some c \<and> next_task ts2 c \<noteq> Some firstp
                   then sort_tasks sortmode firstp c ts2 else Some ts2);
        (case next_task ts3 oldcur of
           None \<Rightarrow> Some ts3
         | Some c \<Rightarrow>
             if prev_task c \<noteq> Some lastp \<and> next_task ts3 lastp \<noteq> Some c
             then sort_tasks sortmode c lastp ts3 else Some ts3)
      })"

declare sort_tasks.simps [code]

text \<open>\<^verbatim>\<open>sort_wrapper\<close> walks to the tail and sorts the whole list; its argument is the head.\<close>

definition sort_wrapper :: "char \<Rightarrow> task list \<Rightarrow> task list option" where
  "sort_wrapper sortmode ts =
     (if ts = [] then None else sort_tasks sortmode 0 (length ts - 1) ts)"

subsection \<open>The export parser\<close>











text \<open>
  One round of the \<^verbatim>\<open>while (token != NULL)\<close> loop of \<^verbatim>\<open>parse_task\<close>, after the counter
  has been incremented: \<open>Break\<close> is the \<^verbatim>\<open>break\<close> of the loop, \<open>Next_token rest tsk\<close> the
  end of the round, where \<^verbatim>\<open>strtok(NULL, ",")\<close> continues in \<open>rest\<close>. The argument is the
  current token as \<open>strtok\<close> returned it. \<open>at_start\<close> says that the token starts at the
  first byte of the line buffer, where \<^verbatim>\<open>*(divider-1) = '\0'\<close> with the colon in front
  writes before the buffer. \<^verbatim>\<open>content = divider+2\<close> lies inside the token when at least
  one byte follows the colon; when the colon ends the token, it is the first byte after
  the NUL that replaced the comma, so \<^verbatim>\<open>content\<close> is the remainder of the line, and
  cutting it at the closing character cuts the remainder; without a comma it is the
  byte after the terminator of the line, a 0 of the buffer that \<^verbatim>\<open>calloc\<close> gave: the value
  is empty, no closing character is found in it, \<^verbatim>\<open>strtok\<close> has no further token for the
  loop over the following tokens, and \<^verbatim>\<open>strlen\<close> receives NULL.
\<close>

datatype step = Break | Next_token string task












subsection \<open>The program state\<close>

text \<open>
  \<^verbatim>\<open>struct _filter\<close> without its link: the chain of active filters is a list. \<^verbatim>\<open>mode\<close> is a
  \<^verbatim>\<open>char\<close>, signed as on x86; \<^verbatim>\<open>key_filter\<close> starts it at -1.
\<close>

record task_filter =
  mode :: int
  string :: "string option"

definition FILTER_BY_STRING :: int where "FILTER_BY_STRING = 0"
definition FILTER_CLEAR :: int where "FILTER_CLEAR = 1"
definition FILTER_DESCRIPTION :: int where "FILTER_DESCRIPTION = 2"
definition FILTER_TAGS :: int where "FILTER_TAGS = 3"
definition FILTER_PROJECT :: int where "FILTER_PROJECT = 4"

text \<open>
  The global variables the engine works on: \<^verbatim>\<open>head\<close>, \<^verbatim>\<open>taskcount\<close>, \<^verbatim>\<open>totaltaskcount\<close>,
  \<^verbatim>\<open>selline\<close>, \<^verbatim>\<open>pageoffset\<close>, \<^verbatim>\<open>size[1]\<close>, \<^verbatim>\<open>active_filters\<close>, \<^verbatim>\<open>searchstring\<close>, the three
  fields of \<^verbatim>\<open>cfg\<close> that the engine reads, and the text that \<^verbatim>\<open>statusbar_message\<close> printed
  last.
\<close>

record state =
  head :: "task list"
  taskcount :: int
  totaltaskcount :: int
  selline :: "16 word"
  pageoffset :: "16 word"
  size1 :: int
  active_filters :: "task_filter list"
  searchstring :: "string option"
  cfg_sortmode :: char
  cfg_filter_persist :: int
  cfg_filter_cascade :: int
  sb_message :: string

subsection \<open>Matching\<close>

text \<open>
  \<^verbatim>\<open>regcomp\<close> with \<^verbatim>\<open>REGEX_OPTS\<close> is a parameter: for the pattern pointer it gives \<open>None\<close>
  when the pattern does not compile, and otherwise the compiled expression as the set
  of strings on which \<^verbatim>\<open>regexec\<close> does not answer \<^verbatim>\<open>REG_NOMATCH\<close>.
\<close>

type_synonym regcomp = "string option \<Rightarrow> (string \<Rightarrow> bool) option"

definition match_string :: "regcomp \<Rightarrow> string option \<Rightarrow> string option \<Rightarrow> int" where
  "match_string rc haystack needle =
     (case haystack of
        None \<Rightarrow> 0
      | Some h \<Rightarrow>
          (case rc needle of
             None \<Rightarrow> 0
           | Some regex \<Rightarrow> if regex h then 1 else 0))"

definition task_match :: "regcomp \<Rightarrow> task \<Rightarrow> string option \<Rightarrow> int" where
  "task_match rc cur str =
     (if match_string rc (project cur) str \<noteq> 0
         \<or> match_string rc (description cur) str \<noteq> 0
         \<or> match_string rc (tags cur) str \<noteq> 0
      then 1 else 0)"

subsection \<open>The filter pass\<close>

text \<open>
  \<^verbatim>\<open>while (cur!=NULL && cur->is_filtered==0) { cur = cur->next; totaltaskcount++; }\<close>:
  the result is the new \<^verbatim>\<open>cur\<close> and the new \<^verbatim>\<open>totaltaskcount\<close>. A position that is not below
  the length of the list is the NULL that ends the walk.
\<close>

function skip_filtered :: "task list \<Rightarrow> nat \<Rightarrow> int \<Rightarrow> nat \<times> int" where
  "skip_filtered ts cur ttc =
     (if cur < length ts \<and> \<not> is_filtered (ts ! cur)
      then skip_filtered ts (Suc cur) (ttc + 1)
      else (cur, ttc))"
  by pat_completeness auto
termination
  by (relation "measure (\<lambda>(ts, cur, ttc). length ts - cur)") auto

declare skip_filtered.simps [simp del]

lemma skip_filtered_ge: "cur \<le> fst (skip_filtered ts cur ttc)"
proof (induction ts cur ttc rule: skip_filtered.induct)
  case (1 ts cur ttc)
  show ?case
  proof (cases "cur < length ts \<and> \<not> is_filtered (ts ! cur)")
    case True
    then have "Suc cur \<le> fst (skip_filtered ts (Suc cur) (ttc + 1))"
      using "1.IH" by simp
    then show ?thesis using True by (subst skip_filtered.simps) simp
  next
    case False
    then show ?thesis by (subst skip_filtered.simps) auto
  qed
qed

text \<open>
  The \<^verbatim>\<open>switch\<close> of \<^verbatim>\<open>filter_tasks\<close> on one task, and the two counters after it. The clear
  mode also drops the chain of active filters.
\<close>

definition filter_step :: "regcomp \<Rightarrow> int \<Rightarrow> string option \<Rightarrow> nat \<Rightarrow> state \<Rightarrow> state" where
  "filter_step rc filter_mode filter_value cur s =
     (let t = head s ! cur;
          s1 =
            (if filter_mode = FILTER_DESCRIPTION then
               s\<lparr>head := (head s)[cur := t\<lparr>is_filtered :=
                    match_string rc (description t) filter_value \<noteq> 0\<rparr>]\<rparr>
             else if filter_mode = FILTER_TAGS then
               s\<lparr>head := (head s)[cur := t\<lparr>is_filtered :=
                    match_string rc (tags t) filter_value \<noteq> 0\<rparr>]\<rparr>
             else if filter_mode = FILTER_PROJECT then
               s\<lparr>head := (head s)[cur := t\<lparr>is_filtered :=
                    match_string rc (project t) filter_value \<noteq> 0\<rparr>]\<rparr>
             else if filter_mode = FILTER_CLEAR then
               s\<lparr>head := (head s)[cur := t\<lparr>is_filtered := True\<rparr>], active_filters := []\<rparr>
             else
               s\<lparr>head := (head s)[cur := t\<lparr>is_filtered :=
                    task_match rc t filter_value \<noteq> 0\<rparr>]\<rparr>)
      in s1\<lparr>taskcount := taskcount s1 + of_bool (is_filtered (head s1 ! cur)),
            totaltaskcount := totaltaskcount s1 + 1\<rparr>)"

lemma length_filter_step [simp]:
  "length (head (filter_step rc filter_mode filter_value cur s)) = length (head s)"
  by (simp add: filter_step_def Let_def)

text \<open>
  The main loop of \<^verbatim>\<open>filter_tasks\<close>; \<open>skip\<close> is the condition
  \<^verbatim>\<open>cfg.filter_persist && filter_mode!=FILTER_CLEAR\<close>.
\<close>

function filter_loop :: "regcomp \<Rightarrow> bool \<Rightarrow> int \<Rightarrow> string option \<Rightarrow> nat \<Rightarrow> state \<Rightarrow> state" where
  "filter_loop rc skip filter_mode filter_value cur s =
     (if cur < length (head s) then
        (let s' = filter_step rc filter_mode filter_value cur s;
             nxt = (if skip then skip_filtered (head s') (Suc cur) (totaltaskcount s')
                    else (Suc cur, totaltaskcount s'))
         in filter_loop rc skip filter_mode filter_value (fst nxt)
              (s'\<lparr>totaltaskcount := snd nxt\<rparr>))
      else s)"
  by pat_completeness auto
termination
proof (relation "measure (\<lambda>(rc, skip, m, v, cur, s). length (head s) - cur)", goal_cases)
  case 1
  show ?case by simp
next
  case (2 rc skip filter_mode filter_value cur s x xa)
  have "Suc cur \<le> fst xa"
    using 2 skip_filtered_ge[of "Suc cur" "head x" "totaltaskcount x"] by (auto split: if_splits)
  then show ?case using 2 by auto
qed

declare filter_loop.simps [simp del]

definition filter_tasks :: "regcomp \<Rightarrow> task_filter \<Rightarrow> state \<Rightarrow> state" where
  "filter_tasks rc this_filter s =
     (let filter_mode = mode this_filter;
          filter_value = string this_filter;
          s0 = s\<lparr>taskcount := 0, totaltaskcount := 0\<rparr>;
          skip = (cfg_filter_persist s \<noteq> 0 \<and> filter_mode \<noteq> FILTER_CLEAR);
          nxt = (if skip then skip_filtered (head s0) 0 (totaltaskcount s0)
                 else (0, totaltaskcount s0))
      in filter_loop rc skip filter_mode filter_value (fst nxt) (s0\<lparr>totaltaskcount := snd nxt\<rparr>))"

text \<open>\<^verbatim>\<open>add_filter\<close>: apply the filter, then keep it in the chain if the configuration says so.\<close>

definition add_filter :: "regcomp \<Rightarrow> task_filter \<Rightarrow> state \<Rightarrow> state" where
  "add_filter rc this_filter s =
     (if mode this_filter \<ge> 0 then
        (let s1 = filter_tasks rc this_filter s in
         if cfg_filter_persist s1 \<noteq> 0 \<and> mode this_filter \<noteq> FILTER_CLEAR then
           (if cfg_filter_cascade s1 \<noteq> 0 then
              s1\<lparr>active_filters := active_filters s1 @ [this_filter]\<rparr>
            else s1\<lparr>active_filters := [this_filter]\<rparr>)
         else s1)
      else s)"

subsection \<open>The view state\<close>

text \<open>
  \<^verbatim>\<open>check_curs_pos\<close>. \<^verbatim>\<open>selline\<close>, \<^verbatim>\<open>pageoffset\<close> and \<^verbatim>\<open>onscreentasks\<close> are \<^verbatim>\<open>short\<close>: they are
  read with \<open>sint\<close>, and a value stored into them is cut to 16 bits.
\<close>

definition check_curs_pos :: "state \<Rightarrow> state" where
  "check_curs_pos s =
     (let onscreentasks = (word_of_int (size1 s - 3) :: 16 word);
          s1 = (if sint (selline s) < 0 then s\<lparr>selline := 0\<rparr>
                else if sint (selline s) \<ge> taskcount s
                then s\<lparr>selline := word_of_int (taskcount s - 1)\<rparr>
                else s)
      in if sint (selline s1) < sint (pageoffset s1) then s1\<lparr>pageoffset := selline s1\<rparr>
         else if sint (selline s1) > sint (pageoffset s1) + sint onscreentasks
         then s1\<lparr>pageoffset := word_of_int (sint (selline s1) - sint onscreentasks)\<rparr>
         else s1)"

text \<open>\<^verbatim>\<open>key_scroll\<close>; the \<^verbatim>\<open>redraw\<close> flag is not part of the state.\<close>

definition key_scroll :: "int \<Rightarrow> state \<Rightarrow> state" where
  "key_scroll direction s =
     check_curs_pos
       (if direction = - 1 then
          (if sint (selline s) > 0 then s\<lparr>selline := selline s - 1\<rparr> else s)
        else if direction = 1 then
          (if sint (selline s) < taskcount s - 1 then s\<lparr>selline := selline s + 1\<rparr> else s)
        else if direction = - 2 then s\<lparr>selline := 0\<rparr>
        else if direction = 2 then s\<lparr>selline := word_of_int (taskcount s - 1)\<rparr>
        else s)"

subsection \<open>The filter key\<close>

text \<open>
  \<^verbatim>\<open>strchr(str, c) == NULL\<close> for the \<^verbatim>\<open>int\<close> that \<^verbatim>\<open>getch\<close> returned: \<^verbatim>\<open>strchr\<close> converts it to
  \<^verbatim>\<open>char\<close>, and finds the terminator of the string when that is 0.
\<close>

definition strchr_found :: "string \<Rightarrow> int \<Rightarrow> bool" where
  "strchr_found str c = (char_of c \<in> set str \<or> char_of c = CHR 0x00)"

text \<open>
  The \<^verbatim>\<open>switch (c)\<close> of \<^verbatim>\<open>key_filter\<close> on the filter that was initialised with mode -1 and
  no string; \<open>tmpstr\<close> is the line that \<^verbatim>\<open>getstr\<close> read.
\<close>

definition filter_of_key :: "int \<Rightarrow> string \<Rightarrow> task_filter" where
  "filter_of_key c tmpstr =
     (if c = of_char (CHR ''a'') \<or> c = of_char (CHR ''A'') then
        \<lparr>mode = FILTER_BY_STRING, string = Some tmpstr\<rparr>
      else if c = of_char (CHR ''c'') \<or> c = of_char (CHR ''C'') then
        \<lparr>mode = FILTER_CLEAR, string = None\<rparr>
      else if c = of_char (CHR ''d'') \<or> c = of_char (CHR ''D'') then
        \<lparr>mode = FILTER_DESCRIPTION, string = Some tmpstr\<rparr>
      else if c = of_char (CHR ''p'') \<or> c = of_char (CHR ''P'') then
        \<lparr>mode = FILTER_PROJECT, string = Some tmpstr\<rparr>
      else if c = of_char (CHR ''t'') \<or> c = of_char (CHR ''T'') then
        \<lparr>mode = FILTER_TAGS, string = Some tmpstr\<rparr>
      else \<lparr>mode = - 1, string = None\<rparr>)"

text \<open>
  \<^verbatim>\<open>key_filter\<close>, with the key \<open>c\<close> that \<^verbatim>\<open>getch\<close> returned and the line \<open>tmpstr\<close> that
  \<^verbatim>\<open>getstr\<close> reads for a mode other than clear. The \<^verbatim>\<open>default\<close> label of the switch
  prints its message and leaves the mode at -1.
\<close>

definition key_filter :: "regcomp \<Rightarrow> int \<Rightarrow> string \<Rightarrow> state \<Rightarrow> state" where
  "key_filter rc c tmpstr s =
     (if \<not> strchr_found ''acdptACDPT'' c then s\<lparr>sb_message := ''invalid filter mode''\<rparr>
      else
        (let this_filter = filter_of_key c tmpstr;
             s1 = (if mode this_filter = - 1 then s\<lparr>sb_message := ''invalid filter mode''\<rparr>
                   else s);
             s2 = add_filter rc this_filter s1;
             s3 = (if taskcount s2 = 0 then
                     (filter_tasks rc \<lparr>mode = FILTER_CLEAR, string = None\<rparr> s2)
                       \<lparr>sb_message := ''filter yielded no results; reset''\<rparr>
                   else s2\<lparr>sb_message := ''filter applied''\<rparr>)
         in check_curs_pos s3))"

subsection \<open>The search\<close>

text \<open>
  \<^verbatim>\<open>sel_task\<close>: the walk to the selected line; \<open>i\<close> is a \<^verbatim>\<open>short\<close> that starts at -1.
\<close>

function sel_task_loop :: "task list \<Rightarrow> 16 word \<Rightarrow> nat \<Rightarrow> 16 word \<Rightarrow> nat option" where
  "sel_task_loop ts sel cur i =
     (if cur < length ts then
        (let i' = i + of_bool (is_filtered (ts ! cur))
         in if i' = sel then Some cur else sel_task_loop ts sel (Suc cur) i')
      else None)"
  by pat_completeness auto
termination
  by (relation "measure (\<lambda>(ts, sel, cur, i). length ts - cur)") auto

declare sel_task_loop.simps [simp del]

definition sel_task :: "state \<Rightarrow> nat option" where
  "sel_task s = sel_task_loop (head s) (selline s) 0 (- 1)"

text \<open>
  The \<^verbatim>\<open>while (1)\<close> loop of \<^verbatim>\<open>find_next_search_result\<close>, from the top of a round with
  \<^verbatim>\<open>cur\<close> and \<^verbatim>\<open>selline\<close>. The result is the final \<^verbatim>\<open>selline\<close> and whether the loop was left
  through the \<^verbatim>\<open>return\<close> after a match (\<open>True\<close>) or through the \<^verbatim>\<open>break\<close> (\<open>False\<close>); \<open>None\<close>
  is a loop that does not end.
\<close>

partial_function (option)
  search_loop :: "regcomp \<Rightarrow> string option \<Rightarrow> task list \<Rightarrow> nat \<Rightarrow> nat \<Rightarrow> 16 word
    \<Rightarrow> (16 word \<times> bool) option" where
  "search_loop rc str ts pos cur sel =
     (case next_task ts cur of
        None \<Rightarrow>
          (let cur' = 0;
               sel' = (if is_filtered (ts ! cur') then 0 else - 1)
           in if task_match rc (ts ! cur') str = 1 then Some (sel', True)
              else if cur' = pos then Some (sel', False)
              else search_loop rc str ts pos cur' sel')
      | Some c \<Rightarrow>
          if is_filtered (ts ! c) then
            (let sel' = sel + 1
             in if task_match rc (ts ! c) str = 1 then Some (sel', True)
                else if c = pos then Some (sel', False)
                else search_loop rc str ts pos c sel')
          else search_loop rc str ts pos c sel)"

text \<open>
  \<^verbatim>\<open>find_next_search_result(head, pos)\<close>: a NULL \<open>pos\<close> is dereferenced in the first round;
  after the \<^verbatim>\<open>break\<close> the status bar says that nothing matched.
\<close>

definition find_next_search_result :: "regcomp \<Rightarrow> nat option \<Rightarrow> state \<Rightarrow> state option" where
  "find_next_search_result rc pos s =
     (case pos of
        None \<Rightarrow> None
      | Some p \<Rightarrow>
          (case search_loop rc (searchstring s) (head s) p p (selline s) of
             None \<Rightarrow> None
           | Some (sel, found) \<Rightarrow>
               if found then Some (s\<lparr>selline := sel\<rparr>)
               else Some (s\<lparr>selline := sel,
                            sb_message := ''no matches: '' @
                              (case searchstring s of None \<Rightarrow> ''(null)'' | Some x \<Rightarrow> x)\<rparr>)))"

text \<open>\<^verbatim>\<open>key_search_next\<close>.\<close>

definition key_search_next :: "regcomp \<Rightarrow> state \<Rightarrow> state option" where
  "key_search_next rc s =
     (if searchstring s \<noteq> None then
        map_option check_curs_pos (find_next_search_result rc (sel_task s) s)
      else Some (s\<lparr>sb_message := ''no active search string''\<rparr>))"

subsection \<open>Notions used in the statements\<close>

text \<open>
  The value that the \<^verbatim>\<open>switch\<close> of \<^verbatim>\<open>filter_tasks\<close> stores into \<^verbatim>\<open>is_filtered\<close> of a task, and
  the effect of one pass on a task: a task that the pass skips stays as it is.
\<close>

definition filter_eval :: "regcomp \<Rightarrow> int \<Rightarrow> string option \<Rightarrow> task \<Rightarrow> bool" where
  "filter_eval rc filter_mode filter_value t =
     (if filter_mode = FILTER_DESCRIPTION then match_string rc (description t) filter_value \<noteq> 0
      else if filter_mode = FILTER_TAGS then match_string rc (tags t) filter_value \<noteq> 0
      else if filter_mode = FILTER_PROJECT then match_string rc (project t) filter_value \<noteq> 0
      else if filter_mode = FILTER_CLEAR then True
      else task_match rc t filter_value \<noteq> 0)"

definition vis_update :: "bool \<Rightarrow> regcomp \<Rightarrow> int \<Rightarrow> string option \<Rightarrow> task \<Rightarrow> task" where
  "vis_update skip rc filter_mode filter_value t =
     (if skip \<and> \<not> is_filtered t then t
      else t\<lparr>is_filtered := filter_eval rc filter_mode filter_value t\<rparr>)"

text \<open>The number of visible tasks at the positions from \<open>a\<close> up to, not including, \<open>b\<close>, as a \<^verbatim>\<open>short\<close>.\<close>

definition vis_between :: "task list \<Rightarrow> nat \<Rightarrow> nat \<Rightarrow> 16 word" where
  "vis_between ts a b = (\<Sum>j = a..<b. of_bool (is_filtered (ts ! j)))"

text \<open>The cursor is on a visible line, and that line is on the page.\<close>

definition curs_ok :: "state \<Rightarrow> bool" where
  "curs_ok s \<longleftrightarrow>
     0 \<le> sint (selline s) \<and> sint (selline s) \<le> taskcount s - 1 \<and>
     sint (pageoffset s) \<le> sint (selline s) \<and>
     sint (selline s) \<le> sint (pageoffset s) + (size1 s - 3)"


text \<open>
  Test data: a task as \<^verbatim>\<open>get_tasks\<close> would link it, with the fields the comparator and the
  filters read, and a state as \<^verbatim>\<open>task_count\<close> leaves it on a screen of 24 lines.
\<close>

definition mk_task :: "nat \<Rightarrow> string option \<Rightarrow> char \<Rightarrow> 32 word \<Rightarrow> task" where
  "mk_task i proj prio d =
     malloc_task\<lparr>index := of_nat i, uuid := Some ''u'', description := Some ''x'',
                 project := proj, priority := prio, due := d\<rparr>"

definition mk_state :: "task list \<Rightarrow> int \<Rightarrow> int \<Rightarrow> state" where
  "mk_state ts persist cascade =
     \<lparr>head = ts, taskcount = int (length ts), totaltaskcount = int (length ts),
      selline = 0, pageoffset = 0, size1 = 24, active_filters = [], searchstring = None,
      cfg_sortmode = CHR ''n'', cfg_filter_persist = persist, cfg_filter_cascade = cascade,
      sb_message = []\<rparr>"

text \<open>Six tasks on a screen of 5 lines, which shows three of them at a time.\<close>

definition view_state :: state where
  "view_state =
     (mk_state [mk_task 0 None (CHR 0x00) 0, mk_task 1 None (CHR 0x00) 0,
        mk_task 2 None (CHR 0x00) 0, mk_task 3 None (CHR 0x00) 0,
        mk_task 4 None (CHR 0x00) 0, mk_task 5 None (CHR 0x00) 0] 0 0)\<lparr>size1 := 5\<rparr>"






text \<open>
  A stand-in for \<^verbatim>\<open>regcomp\<close> in the examples: a pattern that starts with an opening bracket
  does not compile, every other pattern matches the strings that contain its first byte.
\<close>

definition toy_regcomp :: regcomp where
  "toy_regcomp needle =
     (case needle of
        None \<Rightarrow> None
      | Some [] \<Rightarrow> Some (\<lambda>h. True)
      | Some (c # cs) \<Rightarrow> if c = CHR ''['' then None else Some (\<lambda>h. c \<in> set h))"

section \<open>Properties\<close>

subsection \<open>The comparator\<close>

lemma strcmp_antisym: "strcmp b a = - strcmp a b"
  by (induction a b rule: strcmp.induct) auto

declare compare_tasks.simps [simp del]

lemma compare_tasks_n:
  "compare_tasks a b (CHR ''n'') = (if index a < index b then 1 else 0)"
  by (subst compare_tasks.simps) simp

lemma compare_tasks_p:
  "m \<noteq> CHR ''n'' \<Longrightarrow> m \<noteq> CHR ''d'' \<Longrightarrow> m \<noteq> CHR ''r'' \<Longrightarrow>
   compare_tasks a b m =
     (case project a of
        None \<Rightarrow> (if project b \<noteq> None then 1 else 0)
      | Some pa \<Rightarrow>
          (case project b of
             None \<Rightarrow> 0
           | Some pb \<Rightarrow>
               if strcmp pa pb = 0 then (if index a < index b then 1 else 0)
               else if strcmp pa pb < 0 then 1 else 0))"
  by (subst compare_tasks.simps) (simp add: Let_def compare_tasks_n split: option.splits)

lemma compare_tasks_r:
  "compare_tasks a b (CHR ''r'') =
     (if priority a = CHR 0x00 then
        (if priority b = CHR 0x00 then compare_tasks a b (CHR ''p'') else 0)
      else if priority b = CHR 0x00 then 1
      else if priority a = priority b then compare_tasks a b (CHR ''p'')
      else if priority b = CHR ''M'' then (if priority a = CHR ''H'' then 1 else 0)
      else if priority b = CHR ''L'' then
        (if priority a = CHR ''M'' \<or> priority a = CHR ''H'' then 1 else 0)
      else 0)"
  by (subst compare_tasks.simps) simp

lemma compare_tasks_d:
  "compare_tasks a b (CHR ''d'') =
     (if due a = 0 then (if due b = 0 then compare_tasks a b (CHR ''r'') else 0)
      else if due b = 0 then 1
      else if due a < due b then 1
      else 0)"
  by (subst compare_tasks.simps) simp

lemma compare_tasks_range: "compare_tasks a b m = 0 \<or> compare_tasks a b m = 1"
proof -
  have p: "compare_tasks a b m = 0 \<or> compare_tasks a b m = 1"
    if "m \<noteq> CHR ''n''" "m \<noteq> CHR ''d''" "m \<noteq> CHR ''r''" for m
    using that by (simp add: compare_tasks_p split: option.splits)
  have r: "compare_tasks a b (CHR ''r'') = 0 \<or> compare_tasks a b (CHR ''r'') = 1"
    using p[of "CHR ''p''"] by (simp add: compare_tasks_r)
  have d: "compare_tasks a b (CHR ''d'') = 0 \<or> compare_tasks a b (CHR ''d'') = 1"
    using r by (simp add: compare_tasks_d)
  show ?thesis
    using p[of m] r d by (cases "m = CHR ''n''") (auto simp: compare_tasks_n)
qed

lemma asym_n: "\<not> (compare_tasks a b (CHR ''n'') = 1 \<and> compare_tasks b a (CHR ''n'') = 1)"
  by (auto simp: compare_tasks_n split: if_splits)

lemma asym_p:
  assumes "m \<noteq> CHR ''n''" "m \<noteq> CHR ''d''" "m \<noteq> CHR ''r''"
  shows "\<not> (compare_tasks a b m = 1 \<and> compare_tasks b a m = 1)"
proof (cases "project a")
  case None
  then show ?thesis using assms by (simp add: compare_tasks_p split: option.splits)
next
  case (Some pa)
  note pa = this
  show ?thesis
  proof (cases "project b")
    case None
    then show ?thesis using assms pa by (simp add: compare_tasks_p)
  next
    case (Some pb)
    have "strcmp pb pa = - strcmp pa pb" by (rule strcmp_antisym)
    then show ?thesis using assms pa Some
      by (auto simp: compare_tasks_p split: if_splits)
  qed
qed

lemma asym_r: "\<not> (compare_tasks a b (CHR ''r'') = 1 \<and> compare_tasks b a (CHR ''r'') = 1)"
  using asym_p[of "CHR ''p''" a b]
  by (auto simp: compare_tasks_r split: if_splits)

lemma asym_d: "\<not> (compare_tasks a b (CHR ''d'') = 1 \<and> compare_tasks b a (CHR ''d'') = 1)"
  using asym_r[of a b]
  by (auto simp: compare_tasks_d split: if_splits)

text \<open>
  C9. For every sort mode (the four modes \<open>n\<close>, \<open>p\<close>, \<open>d\<close>, \<open>r\<close>, and every other byte, which
  the \<^verbatim>\<open>default\<close> label sends to \<open>p\<close>) and every two task records, \<^verbatim>\<open>compare_tasks(a, b)\<close> and
  \<^verbatim>\<open>compare_tasks(b, a)\<close> do not both return 1.
\<close>

theorem compare_tasks_asymmetric:
  "\<not> (compare_tasks a b sort_mode = 1 \<and> compare_tasks b a sort_mode = 1)"
  using asym_n[of a b] asym_p[of sort_mode a b] asym_r[of a b] asym_d[of a b]
  by blast

theorem compare_tasks_asymmetric_witness:
  "compare_tasks (mk_task 0 (Some ''A'') (CHR ''H'') 50) (mk_task 1 (Some ''A'') (CHR ''H'') 100)
     (CHR ''d'') = 1
   \<and> compare_tasks (mk_task 1 (Some ''A'') (CHR ''H'') 100) (mk_task 0 (Some ''A'') (CHR ''H'') 50)
     (CHR ''d'') \<noteq> 1"
  using compare_tasks_asymmetric[of "mk_task 0 (Some ''A'') (CHR ''H'') 50"
      "mk_task 1 (Some ''A'') (CHR ''H'') 100" "CHR ''d''"]
  by (simp add: compare_tasks_d mk_task_def malloc_task_def)

subsection \<open>The sort\<close>

declare sort_scan.simps [simp del]

lemma task_overwrite:
  "(x::task)\<lparr>index := index y, uuid := uuid y, tags := tags y, start := start y,
      end' := end' y, entry := entry y, due := due y, project := project y,
      priority := priority y, description := description y,
      is_filtered := is_filtered y\<rparr> = y"
  by (rule task.equality) simp_all

lemma swap_tasks_eq: "swap_tasks a b ts = ts[a := ts ! b, b := ts ! a]"
  by (simp add: swap_tasks_def Let_def task_overwrite)




lemma sort_tasks_step:
  assumes "firstp < lastp" "lastp < length ts"
    and "sort_scan m firstp lastp (Suc firstp) ts = Some ts1"
  shows "sort_tasks m firstp lastp ts = sort_tasks m firstp (lastp - 1) (swap_tasks firstp lastp ts1)"
proof -
  have nx: "next_task ts firstp = Some (Suc firstp)"
    using assms by (simp add: next_task_def)
  have pv: "prev_task lastp = Some (lastp - 1)"
    using assms by (simp add: prev_task_def)
  have g1: "prev_task firstp \<noteq> Some (lastp - 1)"
    using assms by (auto simp: prev_task_def)
  have g2: "next_task (swap_tasks firstp lastp ts1) (lastp - 1) \<noteq> Some firstp"
    using assms by (auto simp: next_task_def)
  have right: "(case next_task ts3 lastp of None \<Rightarrow> Some ts3
        | Some c \<Rightarrow> if prev_task c \<noteq> Some lastp \<and> next_task ts3 lastp \<noteq> Some c
                    then sort_tasks m c lastp ts3 else Some ts3) = Some ts3" for ts3
    by (auto simp: next_task_def prev_task_def split: option.splits)
  show ?thesis
    using assms(1) nx pv g1 g2
    by (subst sort_tasks.simps) (simp add: assms(3) right)
qed



lemma sort_wrapper_pair:
  "sort_wrapper m [x, y] = Some (if compare_tasks x y m = 1 then [x, y] else [y, x])"
proof -
  have scan: "sort_scan m 0 1 (Suc 0) [x, y] =
      Some (if compare_tasks x y m = 1 then [y, x] else [x, y])"
    by (subst sort_scan.simps) (simp add: swap_tasks_eq)
  have "sort_tasks m 0 1 [x, y] =
      sort_tasks m 0 0 (swap_tasks 0 1 (if compare_tasks x y m = 1 then [y, x] else [x, y]))"
    using sort_tasks_step[of 0 1 "[x, y]" m, OF _ _ scan] by simp
  also have "\<dots> = Some (if compare_tasks x y m = 1 then [x, y] else [y, x])"
    by (subst sort_tasks.simps) (simp add: swap_tasks_eq)
  finally show ?thesis by (simp add: sort_wrapper_def)
qed






subsection \<open>The view state\<close>

lemma sint16_range: "- 32768 \<le> sint (w :: 16 word) \<and> sint w \<le> 32767"
  using sint_ge[of w] sint_lt[of w] by simp

lemma sint16_of_int:
  "- 32768 \<le> x \<Longrightarrow> x \<le> 32767 \<Longrightarrow> sint (word_of_int x :: 16 word) = x"
  by (simp add: sint_sbintrunc' signed_take_bit_int_eq_self)

lemma check_curs_pos_frame:
  "taskcount (check_curs_pos s) = taskcount s \<and> size1 (check_curs_pos s) = size1 s"
  by (simp add: check_curs_pos_def Let_def)

lemma check_curs_pos_ok:
  assumes tc: "1 \<le> taskcount s" and lo: "3 \<le> size1 s" and hi: "size1 s \<le> 32770"
  shows "curs_ok (check_curs_pos s)"
proof -
  define sel where "sel = (if sint (selline s) < 0 then 0
      else if sint (selline s) \<ge> taskcount s then word_of_int (taskcount s - 1)
      else selline s :: 16 word)"
  have ons: "sint (word_of_int (size1 s - 3) :: 16 word) = size1 s - 3"
    using lo hi by (intro sint16_of_int) simp_all
  have sel_range: "0 \<le> sint sel \<and> sint sel \<le> taskcount s - 1"
  proof (cases "sint (selline s) < 0")
    case True
    then show ?thesis using tc by (simp add: sel_def)
  next
    case False
    note nonneg = this
    show ?thesis
    proof (cases "sint (selline s) \<ge> taskcount s")
      case True
      have "taskcount s - 1 \<le> 32767" using True sint16_range[of "selline s"] by simp
      then have "sint (word_of_int (taskcount s - 1) :: 16 word) = taskcount s - 1"
        using tc by (intro sint16_of_int) simp_all
      then show ?thesis using nonneg True tc by (simp add: sel_def)
    next
      case False
      then show ?thesis using nonneg by (simp add: sel_def)
    qed
  qed
  define po where "po = (if sint sel < sint (pageoffset s) then sel
      else if sint sel > sint (pageoffset s) + (size1 s - 3)
      then word_of_int (sint sel - (size1 s - 3))
      else pageoffset s :: 16 word)"
  have po_ok: "sint po \<le> sint sel \<and> sint sel \<le> sint po + (size1 s - 3)"
  proof (cases "sint sel < sint (pageoffset s)")
    case True
    then show ?thesis using lo by (simp add: po_def)
  next
    case False
    note ge = this
    show ?thesis
    proof (cases "sint sel > sint (pageoffset s) + (size1 s - 3)")
      case True
      have "sint (word_of_int (sint sel - (size1 s - 3)) :: 16 word) = sint sel - (size1 s - 3)"
        using sel_range sint16_range[of sel] lo hi by (intro sint16_of_int) simp_all
      then show ?thesis using ge True lo by (simp add: po_def)
    next
      case False
      then show ?thesis using ge by (simp add: po_def)
    qed
  qed
  have sel': "selline (check_curs_pos s) = sel"
    unfolding check_curs_pos_def Let_def sel_def by simp
  have po': "pageoffset (check_curs_pos s) = po"
    unfolding check_curs_pos_def Let_def ons po_def sel_def by simp
  show ?thesis
    using sel_range po_ok
    by (simp add: curs_ok_def sel' po' check_curs_pos_frame)
qed

lemma key_scroll_frame:
  "taskcount (key_scroll d s) = taskcount s \<and> size1 (key_scroll d s) = size1 s"
  by (simp add: key_scroll_def check_curs_pos_frame)

lemma key_scroll_ok:
  assumes "1 \<le> taskcount s" "3 \<le> size1 s" "size1 s \<le> 32770"
  shows "curs_ok (key_scroll d s)"
  unfolding key_scroll_def
  by (rule check_curs_pos_ok) (use assms in simp_all)

lemma foldl_key_scroll_frame:
  "taskcount (foldl (\<lambda>s d. key_scroll d s) s ds) = taskcount s \<and>
   size1 (foldl (\<lambda>s d. key_scroll d s) s ds) = size1 s"
  by (induction ds arbitrary: s) (simp_all add: key_scroll_frame)

lemma check_curs_pos_id:
  assumes ok: "curs_ok s" and lo: "3 \<le> size1 s" and hi: "size1 s \<le> 32770"
  shows "check_curs_pos s = s"
proof -
  have ons: "sint (word_of_int (size1 s - 3) :: 16 word) = size1 s - 3"
    using lo hi by (intro sint16_of_int) simp_all
  show ?thesis
    using ok unfolding check_curs_pos_def Let_def ons curs_ok_def by simp
qed

lemma check_curs_pos_page:
  assumes sel: "0 \<le> sint (selline s)" "sint (selline s) \<le> taskcount s - 1"
    and lo: "3 \<le> size1 s" and hi: "size1 s \<le> 32770"
  shows "selline (check_curs_pos s) = selline s \<and>
         sint (pageoffset (check_curs_pos s)) =
           (if sint (selline s) < sint (pageoffset s) then sint (selline s)
            else if sint (pageoffset s) + (size1 s - 3) < sint (selline s)
            then sint (selline s) - (size1 s - 3)
            else sint (pageoffset s))"
proof -
  have ons: "sint (word_of_int (size1 s - 3) :: 16 word) = size1 s - 3"
    using lo hi by (intro sint16_of_int) simp_all
  have w: "sint (word_of_int (sint (selline s) - (size1 s - 3)) :: 16 word)
      = sint (selline s) - (size1 s - 3)"
    using sel sint16_range[of "selline s"] lo hi by (intro sint16_of_int) simp_all
  show ?thesis
    using sel w unfolding check_curs_pos_def Let_def ons by simp
qed

lemma key_scroll_move:
  assumes ok: "curs_ok s" and tc: "taskcount s \<le> 32768"
    and lo: "3 \<le> size1 s" and hi: "size1 s \<le> 32770"
  shows "sint (selline (key_scroll d s)) =
           (if d = - 1 then max 0 (sint (selline s) - 1)
            else if d = 1 then min (taskcount s - 1) (sint (selline s) + 1)
            else if d = - 2 then 0
            else if d = 2 then taskcount s - 1
            else sint (selline s))
         \<and> sint (pageoffset (key_scroll d s)) =
           (if sint (selline (key_scroll d s)) < sint (pageoffset s)
            then sint (selline (key_scroll d s))
            else if sint (pageoffset s) + (size1 s - 3) < sint (selline (key_scroll d s))
            then sint (selline (key_scroll d s)) - (size1 s - 3)
            else sint (pageoffset s))"
proof -
  define t where "t =
       (if d = - 1 then
          (if sint (selline s) > 0 then s\<lparr>selline := selline s - 1\<rparr> else s)
        else if d = 1 then
          (if sint (selline s) < taskcount s - 1 then s\<lparr>selline := selline s + 1\<rparr> else s)
        else if d = - 2 then s\<lparr>selline := 0\<rparr>
        else if d = 2 then s\<lparr>selline := word_of_int (taskcount s - 1)\<rparr>
        else s)"
  have ks: "key_scroll d s = check_curs_pos t"
    by (simp add: key_scroll_def t_def)
  have sel0: "0 \<le> sint (selline s)" "sint (selline s) \<le> taskcount s - 1"
    using ok by (simp_all add: curs_ok_def)
  have tc1: "1 \<le> taskcount s" using sel0 by simp
  have dn: "sint (selline s - 1) = sint (selline s) - 1" if "0 < sint (selline s)"
  proof -
    have "selline s - 1 = word_of_int (sint (selline s) - 1)" by simp
    moreover have "sint (word_of_int (sint (selline s) - 1) :: 16 word) = sint (selline s) - 1"
      using that sint16_range[of "selline s"] by (intro sint16_of_int) simp_all
    ultimately show ?thesis by simp
  qed
  have up: "sint (selline s + 1) = sint (selline s) + 1" if "sint (selline s) < taskcount s - 1"
  proof -
    have "selline s + 1 = word_of_int (sint (selline s) + 1)" by simp
    moreover have "sint (word_of_int (sint (selline s) + 1) :: 16 word) = sint (selline s) + 1"
      using that sel0 tc by (intro sint16_of_int) simp_all
    ultimately show ?thesis by simp
  qed
  have last: "sint (word_of_int (taskcount s - 1) :: 16 word) = taskcount s - 1"
    using tc tc1 by (intro sint16_of_int) simp_all
  have frame: "taskcount t = taskcount s" "size1 t = size1 s" "pageoffset t = pageoffset s"
    by (simp_all add: t_def)
  have move: "sint (selline t) =
           (if d = - 1 then max 0 (sint (selline s) - 1)
            else if d = 1 then min (taskcount s - 1) (sint (selline s) + 1)
            else if d = - 2 then 0
            else if d = 2 then taskcount s - 1
            else sint (selline s))"
    using sel0 dn up last by (simp add: t_def)
  have rng: "0 \<le> sint (selline t)" "sint (selline t) \<le> taskcount t - 1"
    using sel0 tc1 unfolding move frame by (auto simp: min_def max_def)
  from check_curs_pos_page[OF rng] lo hi
  have "selline (check_curs_pos t) = selline t \<and>
         sint (pageoffset (check_curs_pos t)) =
           (if sint (selline t) < sint (pageoffset t) then sint (selline t)
            else if sint (pageoffset t) + (size1 t - 3) < sint (selline t)
            then sint (selline t) - (size1 t - 3)
            else sint (pageoffset t))"
    by (simp add: frame)
  then show ?thesis
    unfolding ks using move by (simp add: frame)
qed

lemma foldl_key_scroll_ok:
  assumes "1 \<le> taskcount s" "3 \<le> size1 s" "size1 s \<le> 32770" "0 < n" "n \<le> length ds"
  shows "curs_ok (foldl (\<lambda>s d. key_scroll d s) s (take n ds))"
proof -
  obtain k where n: "n = Suc k" using assms(4) by (cases n) simp_all
  have k: "k < length ds" using assms(5) n by simp
  have "foldl (\<lambda>s d. key_scroll d s) s (take n ds) =
      key_scroll (ds ! k) (foldl (\<lambda>s d. key_scroll d s) s (take k ds))"
    unfolding n by (simp add: take_Suc_conv_app_nth[OF k])
  moreover have "curs_ok (key_scroll (ds ! k) (foldl (\<lambda>s d. key_scroll d s) s (take k ds)))"
    using assms(1-3) foldl_key_scroll_frame[of s "take k ds"] by (intro key_scroll_ok) simp_all
  ultimately show ?thesis by simp
qed

text \<open>
  C8. With at least one visible task, every \<^verbatim>\<open>key_scroll\<close> of a sequence (scroll by one, jump
  to the first or the last line; any other direction only runs the check) leaves the
  selected line in \<open>[0, taskcount - 1]\<close> and on the page,
  \<open>pageoffset \<le> selline \<le> pageoffset + (size[1] - 3)\<close>, which is below the screen height
  minus the title and the status row; a \<^verbatim>\<open>check_curs_pos\<close> that follows changes nothing, and
  after the whole sequence and the check the same bounds hold. From a state within these
  bounds and with at most 32768 visible tasks, scrolling up or down moves the selected
  line by one unless it is the first or the last, the jumps put it on line 0 and on line
  \<open>taskcount - 1\<close>, and the page offset moves only as far as is needed to keep the selected
  line on the page. The screen has the 5 lines that \<^verbatim>\<open>check_screen_size\<close> waits for, and
  its height fits the \<^verbatim>\<open>short\<close> that holds \<^verbatim>\<open>size[1]-3\<close>.
\<close>

theorem pagination_clamp:
  assumes "1 \<le> taskcount s" and "5 \<le> size1 s" and "size1 s \<le> 32770"
  shows "(let s' = check_curs_pos (foldl (\<lambda>s d. key_scroll d s) s ds) in
            0 \<le> sint (selline s') \<and> sint (selline s') \<le> taskcount s' - 1 \<and>
            sint (pageoffset s') \<le> sint (selline s') \<and>
            sint (selline s') \<le> sint (pageoffset s') + (size1 s' - 2))
         \<and> (n < length ds \<longrightarrow>
            (let s0 = foldl (\<lambda>s d. key_scroll d s) s (take n ds);
                 s1 = foldl (\<lambda>s d. key_scroll d s) s (take (Suc n) ds);
                 d = ds ! n
             in s1 = key_scroll d s0 \<and>
                taskcount s1 = taskcount s \<and> size1 s1 = size1 s \<and>
                0 \<le> sint (selline s1) \<and> sint (selline s1) \<le> taskcount s - 1 \<and>
                sint (pageoffset s1) \<le> sint (selline s1) \<and>
                sint (selline s1) \<le> sint (pageoffset s1) + (size1 s - 3) \<and>
                check_curs_pos s1 = s1 \<and>
                ((0 < n \<or> curs_ok s) \<and> taskcount s \<le> 32768 \<longrightarrow>
                   sint (selline s1) =
                     (if d = - 1 then max 0 (sint (selline s0) - 1)
                      else if d = 1 then min (taskcount s - 1) (sint (selline s0) + 1)
                      else if d = - 2 then 0
                      else if d = 2 then taskcount s - 1
                      else sint (selline s0)) \<and>
                   sint (pageoffset s1) =
                     (if sint (selline s1) < sint (pageoffset s0) then sint (selline s1)
                      else if sint (pageoffset s0) + (size1 s - 3) < sint (selline s1)
                      then sint (selline s1) - (size1 s - 3)
                      else sint (pageoffset s0)))))"
proof -
  let ?run = "\<lambda>k. foldl (\<lambda>s d. key_scroll d s) s (take k ds)"
  have sz: "3 \<le> size1 s" using assms(2) by simp
  have fr: "taskcount (?run k) = taskcount s \<and> size1 (?run k) = size1 s" for k
    by (rule foldl_key_scroll_frame)
  have "curs_ok (check_curs_pos (foldl (\<lambda>s d. key_scroll d s) s ds))"
    using assms foldl_key_scroll_frame[of s ds] by (intro check_curs_pos_ok) simp_all
  then have final: "(let s' = check_curs_pos (foldl (\<lambda>s d. key_scroll d s) s ds) in
            0 \<le> sint (selline s') \<and> sint (selline s') \<le> taskcount s' - 1 \<and>
            sint (pageoffset s') \<le> sint (selline s') \<and>
            sint (selline s') \<le> sint (pageoffset s') + (size1 s' - 2))"
    by (simp add: curs_ok_def Let_def)
  have step: "?run (Suc n) = key_scroll (ds ! n) (?run n)
      \<and> taskcount (?run (Suc n)) = taskcount s \<and> size1 (?run (Suc n)) = size1 s
      \<and> 0 \<le> sint (selline (?run (Suc n))) \<and> sint (selline (?run (Suc n))) \<le> taskcount s - 1
      \<and> sint (pageoffset (?run (Suc n))) \<le> sint (selline (?run (Suc n)))
      \<and> sint (selline (?run (Suc n))) \<le> sint (pageoffset (?run (Suc n))) + (size1 s - 3)
      \<and> check_curs_pos (?run (Suc n)) = ?run (Suc n)
      \<and> ((0 < n \<or> curs_ok s) \<and> taskcount s \<le> 32768 \<longrightarrow>
            sint (selline (?run (Suc n))) =
              (if ds ! n = - 1 then max 0 (sint (selline (?run n)) - 1)
               else if ds ! n = 1 then min (taskcount s - 1) (sint (selline (?run n)) + 1)
               else if ds ! n = - 2 then 0
               else if ds ! n = 2 then taskcount s - 1
               else sint (selline (?run n))) \<and>
            sint (pageoffset (?run (Suc n))) =
              (if sint (selline (?run (Suc n))) < sint (pageoffset (?run n))
               then sint (selline (?run (Suc n)))
               else if sint (pageoffset (?run n)) + (size1 s - 3) < sint (selline (?run (Suc n)))
               then sint (selline (?run (Suc n))) - (size1 s - 3)
               else sint (pageoffset (?run n))))"
    if n: "n < length ds"
  proof -
    have eq: "?run (Suc n) = key_scroll (ds ! n) (?run n)"
      by (simp add: take_Suc_conv_app_nth[OF n])
    have ok1: "curs_ok (?run (Suc n))"
      using assms(1) sz assms(3) n by (intro foldl_key_scroll_ok) simp_all
    have id1: "check_curs_pos (?run (Suc n)) = ?run (Suc n)"
      using ok1 sz assms(3) fr[of "Suc n"] by (intro check_curs_pos_id) simp_all
    have mv: "sint (selline (?run (Suc n))) =
              (if ds ! n = - 1 then max 0 (sint (selline (?run n)) - 1)
               else if ds ! n = 1 then min (taskcount s - 1) (sint (selline (?run n)) + 1)
               else if ds ! n = - 2 then 0
               else if ds ! n = 2 then taskcount s - 1
               else sint (selline (?run n))) \<and>
            sint (pageoffset (?run (Suc n))) =
              (if sint (selline (?run (Suc n))) < sint (pageoffset (?run n))
               then sint (selline (?run (Suc n)))
               else if sint (pageoffset (?run n)) + (size1 s - 3) < sint (selline (?run (Suc n)))
               then sint (selline (?run (Suc n))) - (size1 s - 3)
               else sint (pageoffset (?run n)))"
      if st: "0 < n \<or> curs_ok s" and tc: "taskcount s \<le> 32768"
    proof -
      have ok0: "curs_ok (?run n)"
      proof (cases "0 < n")
        case True
        then show ?thesis
          using assms(1) sz assms(3) n by (intro foldl_key_scroll_ok) simp_all
      next
        case False
        then show ?thesis using st by simp
      qed
      have tc0: "taskcount (?run n) \<le> 32768" "3 \<le> size1 (?run n)" "size1 (?run n) \<le> 32770"
        using tc sz assms(3) fr[of n] by simp_all
      show ?thesis
        using key_scroll_move[OF ok0 tc0, of "ds ! n"] fr[of n] unfolding eq by simp
    qed
    have rng: "0 \<le> sint (selline (?run (Suc n))) \<and> sint (selline (?run (Suc n))) \<le> taskcount s - 1
      \<and> sint (pageoffset (?run (Suc n))) \<le> sint (selline (?run (Suc n)))
      \<and> sint (selline (?run (Suc n))) \<le> sint (pageoffset (?run (Suc n))) + (size1 s - 3)"
      using ok1 fr[of "Suc n"] by (simp add: curs_ok_def)
    show ?thesis
      using eq fr[of "Suc n"] rng id1 mv by blast
  qed
  show ?thesis
    unfolding Let_def using final[unfolded Let_def] step by blast
qed

theorem pagination_clamp_witness:
  "1 \<le> taskcount view_state \<and> 5 \<le> size1 view_state \<and> size1 view_state \<le> 32770
   \<and> curs_ok view_state \<and> taskcount view_state \<le> 32768
   \<and> (5::nat) < length [2, - 1, - 2, 1, 1, 1, 7 :: int]
   \<and> map (\<lambda>k. (sint (selline (foldl (\<lambda>s d. key_scroll d s) view_state (take k [2, - 1, - 2, 1, 1, 1, 7]))),
             sint (pageoffset (foldl (\<lambda>s d. key_scroll d s) view_state (take k [2, - 1, - 2, 1, 1, 1, 7])))))
        [0, 1, 2, 3, 4, 5, 6, 7]
      = [(0, 0), (5, 3), (4, 3), (0, 0), (1, 0), (2, 0), (3, 1), (3, 1)]
   \<and> (let s' = check_curs_pos (foldl (\<lambda>s d. key_scroll d s) view_state [2, - 1, - 2, 1, 1, 1, 7]) in
            0 \<le> sint (selline s') \<and> sint (selline s') \<le> taskcount s' - 1 \<and>
            sint (pageoffset s') \<le> sint (selline s') \<and>
            sint (selline s') \<le> sint (pageoffset s') + (size1 s' - 2))
   \<and> (let s0 = foldl (\<lambda>s d. key_scroll d s) view_state (take 5 [2, - 1, - 2, 1, 1, 1, 7]);
           s1 = foldl (\<lambda>s d. key_scroll d s) view_state (take (Suc 5) [2, - 1, - 2, 1, 1, 1, 7]);
           d = [2, - 1, - 2, 1, 1, 1, 7] ! 5
       in s1 = key_scroll d s0 \<and>
          taskcount s1 = taskcount view_state \<and> size1 s1 = size1 view_state \<and>
          0 \<le> sint (selline s1) \<and> sint (selline s1) \<le> taskcount view_state - 1 \<and>
          sint (pageoffset s1) \<le> sint (selline s1) \<and>
          sint (selline s1) \<le> sint (pageoffset s1) + (size1 view_state - 3) \<and>
          check_curs_pos s1 = s1 \<and>
          ((0 < (5::nat) \<or> curs_ok view_state) \<and> taskcount view_state \<le> 32768 \<longrightarrow>
             sint (selline s1) =
               (if d = - 1 then max 0 (sint (selline s0) - 1)
                else if d = 1 then min (taskcount view_state - 1) (sint (selline s0) + 1)
                else if d = - 2 then 0
                else if d = 2 then taskcount view_state - 1
                else sint (selline s0)) \<and>
             sint (pageoffset s1) =
               (if sint (selline s1) < sint (pageoffset s0) then sint (selline s1)
                else if sint (pageoffset s0) + (size1 view_state - 3) < sint (selline s1)
                then sint (selline s1) - (size1 view_state - 3)
                else sint (pageoffset s0))))"
proof -
  have h1: "1 \<le> taskcount view_state" and h2: "5 \<le> size1 view_state"
    and h3: "size1 view_state \<le> 32770" and h4: "taskcount view_state \<le> 32768"
    by (simp_all add: view_state_def mk_state_def)
  have ok: "curs_ok view_state"
    by (simp add: curs_ok_def view_state_def mk_state_def)
  have n: "(5::nat) < length [2, - 1, - 2, 1, 1, 1, 7 :: int]" by simp
  have run: "map (\<lambda>k. (sint (selline (foldl (\<lambda>s d. key_scroll d s) view_state (take k [2, - 1, - 2, 1, 1, 1, 7]))),
             sint (pageoffset (foldl (\<lambda>s d. key_scroll d s) view_state (take k [2, - 1, - 2, 1, 1, 1, 7])))))
        [0, 1, 2, 3, 4, 5, 6, 7]
      = [(0, 0), (5, 3), (4, 3), (0, 0), (1, 0), (2, 0), (3, 1), (3, 1)]"
    by (simp add: view_state_def mk_state_def key_scroll_def check_curs_pos_def Let_def)
  show ?thesis
    using pagination_clamp[OF h1 h2 h3, of "[2, - 1, - 2, 1, 1, 1, 7]" 5] h1 h2 h3 h4 ok n run
    by blast
qed

subsection \<open>The filter pass\<close>

lemma filter_step_eq:
  "filter_step rc m v cur s =
     s\<lparr>head := (head s)[cur := (head s ! cur)\<lparr>is_filtered := filter_eval rc m v (head s ! cur)\<rparr>],
       taskcount := taskcount s +
         of_bool (is_filtered (((head s)[cur := (head s ! cur)\<lparr>is_filtered := filter_eval rc m v (head s ! cur)\<rparr>]) ! cur)),
       totaltaskcount := totaltaskcount s + 1,
       active_filters := (if m = FILTER_CLEAR then [] else active_filters s)\<rparr>"
  by (simp add: filter_step_def filter_eval_def Let_def FILTER_DESCRIPTION_def FILTER_TAGS_def
        FILTER_PROJECT_def FILTER_CLEAR_def)

lemma skip_filtered_spec:
  assumes "cur \<le> length ts"
  shows "\<exists>c'. skip_filtered ts cur ttc = (c', ttc + int (c' - cur)) \<and> cur \<le> c' \<and> c' \<le> length ts
           \<and> (\<forall>i. cur \<le> i \<and> i < c' \<longrightarrow> \<not> is_filtered (ts ! i))
           \<and> (c' < length ts \<longrightarrow> is_filtered (ts ! c'))"
  using assms
proof (induction ts cur ttc rule: skip_filtered.induct)
  case (1 ts cur ttc)
  show ?case
  proof (cases "cur < length ts \<and> \<not> is_filtered (ts ! cur)")
    case True
    then obtain c' where c': "skip_filtered ts (Suc cur) (ttc + 1) = (c', ttc + 1 + int (c' - Suc cur))"
      "Suc cur \<le> c'" "c' \<le> length ts"
      "\<forall>i. Suc cur \<le> i \<and> i < c' \<longrightarrow> \<not> is_filtered (ts ! i)"
      "c' < length ts \<longrightarrow> is_filtered (ts ! c')"
      using "1.IH" by auto
    have "skip_filtered ts cur ttc = (c', ttc + int (c' - cur))"
      using True c'(1,2) by (subst skip_filtered.simps) (simp add: Suc_diff_le)
    moreover have "\<forall>i. cur \<le> i \<and> i < c' \<longrightarrow> \<not> is_filtered (ts ! i)"
      using True c'(4) by (metis Suc_leI le_neq_implies_less)
    ultimately show ?thesis using c'(2,3,5) by auto
  next
    case False
    then have "skip_filtered ts cur ttc = (cur, ttc)"
      by (subst skip_filtered.simps) auto
    then show ?thesis using False "1.prems" by auto
  qed
qed


lemma filter_drop_hidden:
  assumes "a \<le> b" "b \<le> length ts" "\<forall>i. a \<le> i \<and> i < b \<longrightarrow> \<not> P (f (ts ! i))"
  shows "filter P (map f (drop a ts)) = filter P (map f (drop b ts))"
  using assms
proof (induction "b - a" arbitrary: a)
  case 0
  then show ?case by simp
next
  case (Suc k)
  then have lt: "a < b" and len: "a < length ts" by simp_all
  have "drop a ts = ts ! a # drop (Suc a) ts"
    using len by (simp add: Cons_nth_drop_Suc)
  moreover have "\<not> P (f (ts ! a))" using Suc.prems lt by simp
  moreover have "filter P (map f (drop (Suc a) ts)) = filter P (map f (drop b ts))"
    using Suc.hyps(2) Suc.prems lt by (intro Suc.hyps(1)) auto
  ultimately show ?case by simp
qed

lemma walk_head:
  assumes "cur < length ts" "Suc cur \<le> c'" "c' \<le> length ts"
    and "\<forall>i. Suc cur \<le> i \<and> i < c' \<longrightarrow> f (ts ! i) = ts ! i"
  shows "take c' (ts[cur := f (ts ! cur)]) @ map f (drop c' (ts[cur := f (ts ! cur)]))
         = take cur ts @ map f (drop cur ts)"
proof (rule nth_equalityI)
  show "length (take c' (ts[cur := f (ts ! cur)]) @ map f (drop c' (ts[cur := f (ts ! cur)])))
        = length (take cur ts @ map f (drop cur ts))"
    using assms by simp
next
  fix i
  assume "i < length (take c' (ts[cur := f (ts ! cur)]) @ map f (drop c' (ts[cur := f (ts ! cur)])))"
  then have i: "i < length ts" using assms by simp
  consider "i < cur" | "i = cur" | "cur < i" "i < c'" | "c' \<le> i" by linarith
  then show "(take c' (ts[cur := f (ts ! cur)]) @ map f (drop c' (ts[cur := f (ts ! cur)]))) ! i
        = (take cur ts @ map f (drop cur ts)) ! i"
  proof cases
    case 1
    then show ?thesis using assms i by (simp add: nth_append)
  next
    case 2
    then show ?thesis using assms i by (simp add: nth_append)
  next
    case 3
    then have "f (ts ! i) = ts ! i" using assms(4) by simp
    then show ?thesis using 3 assms i by (simp add: nth_append)
  next
    case 4
    then show ?thesis using assms i by (simp add: nth_append)
  qed
qed

lemma walk_count:
  assumes "cur < length ts" "Suc cur \<le> c'" "c' \<le> length ts"
    and "\<forall>i. Suc cur \<le> i \<and> i < c' \<longrightarrow> \<not> P (f (ts ! i))"
  shows "int (length (filter P (map f (drop cur ts))))
         = of_bool (P (f (ts ! cur))) + int (length (filter P (map f (drop c' (ts[cur := x])))))"
proof -
  have "drop cur ts = ts ! cur # drop (Suc cur) ts"
    using assms(1) by (simp add: Cons_nth_drop_Suc)
  moreover have "filter P (map f (drop (Suc cur) ts)) = filter P (map f (drop c' ts))"
    using assms by (intro filter_drop_hidden) auto
  moreover have "drop c' (ts[cur := x]) = drop c' ts"
    using assms(2) by simp
  ultimately show ?thesis by simp
qed

lemma filter_loop_spec:
  assumes "cur \<le> length (head s)"
    and "skip \<longrightarrow> cur < length (head s) \<longrightarrow> is_filtered (head s ! cur)"
  shows "filter_loop rc skip m v cur s =
     s\<lparr>head := take cur (head s) @ map (vis_update skip rc m v) (drop cur (head s)),
       taskcount := taskcount s +
         int (length (filter is_filtered (map (vis_update skip rc m v) (drop cur (head s))))),
       totaltaskcount := totaltaskcount s + int (length (head s) - cur),
       active_filters :=
         (if m = FILTER_CLEAR \<and> cur < length (head s) then [] else active_filters s)\<rparr>"
  using assms
proof (induction rc skip m v cur s rule: filter_loop.induct)
  case (1 rc skip m v cur s)
  let ?f = "vis_update skip rc m v"
  show ?case
  proof (cases "cur < length (head s)")
    case False
    then show ?thesis using "1.prems" by (subst filter_loop.simps) simp
  next
    case True
    define ts where "ts = head s"
    define s' where "s' = filter_step rc m v cur s"
    define nxt where "nxt = (if skip then skip_filtered (head s') (Suc cur) (totaltaskcount s')
                             else (Suc cur, totaltaskcount s'))"
    have vis: "\<not> (skip \<and> \<not> is_filtered (ts ! cur))"
      using "1.prems" True by (auto simp: ts_def)
    have fcur: "?f (ts ! cur) = (ts ! cur)\<lparr>is_filtered := filter_eval rc m v (ts ! cur)\<rparr>"
      using vis by (auto simp: vis_update_def)
    have hs': "head s' = ts[cur := ?f (ts ! cur)]"
      unfolding ts_def by (simp add: s'_def filter_step_eq fcur[unfolded ts_def])
    have len': "length (head s') = length ts" by (simp add: hs')
    obtain c' where nxt_eq: "nxt = (c', totaltaskcount s' + int (c' - Suc cur))"
      and c'1: "Suc cur \<le> c'" and c'2: "c' \<le> length ts"
      and hid: "\<forall>i. Suc cur \<le> i \<and> i < c' \<longrightarrow> skip \<and> \<not> is_filtered (head s' ! i)"
      and nvis: "skip \<longrightarrow> c' < length ts \<longrightarrow> is_filtered (head s' ! c')"
    proof (cases skip)
      case True
      from skip_filtered_spec[of "Suc cur" "head s'" "totaltaskcount s'"] \<open>cur < length (head s)\<close>
      obtain c where "skip_filtered (head s') (Suc cur) (totaltaskcount s')
            = (c, totaltaskcount s' + int (c - Suc cur))"
        "Suc cur \<le> c" "c \<le> length (head s')"
        "\<forall>i. Suc cur \<le> i \<and> i < c \<longrightarrow> \<not> is_filtered (head s' ! i)"
        "c < length (head s') \<longrightarrow> is_filtered (head s' ! c)"
        unfolding len' ts_def by auto
      then show ?thesis using True that[of c] by (simp add: nxt_def len')
    next
      case False
      then show ?thesis using that[of "Suc cur"] \<open>cur < length (head s)\<close>
        by (simp add: nxt_def ts_def)
    qed
    have same: "head s' ! i = ts ! i" if "Suc cur \<le> i" for i
      using that by (simp add: hs')
    have fid: "\<forall>i. Suc cur \<le> i \<and> i < c' \<longrightarrow> ?f (ts ! i) = ts ! i"
      using hid same by (simp add: vis_update_def)
    have fhid: "\<forall>i. Suc cur \<le> i \<and> i < c' \<longrightarrow> \<not> is_filtered (?f (ts ! i))"
      using hid same by (simp add: vis_update_def)
    let ?s'' = "s'\<lparr>totaltaskcount := snd nxt\<rparr>"
    have IH: "filter_loop rc skip m v c' ?s'' =
       ?s''\<lparr>head := take c' (head ?s'') @ map ?f (drop c' (head ?s'')),
         taskcount := taskcount ?s'' +
           int (length (filter is_filtered (map ?f (drop c' (head ?s''))))),
         totaltaskcount := totaltaskcount ?s'' + int (length (head ?s'') - c'),
         active_filters :=
           (if m = FILTER_CLEAR \<and> c' < length (head ?s'') then [] else active_filters ?s'')\<rparr>"
      using "1.IH"[OF True s'_def nxt_def] c'2 nvis nxt_eq by (simp add: len')
    have step: "filter_loop rc skip m v cur s = filter_loop rc skip m v c' ?s''"
      using True nxt_eq
      by (subst filter_loop.simps) (simp add: Let_def s'_def[symmetric] nxt_def[symmetric])
    have H: "take c' (head s') @ map ?f (drop c' (head s')) = take cur ts @ map ?f (drop cur ts)"
      unfolding hs' using True c'1 c'2 fid by (intro walk_head) (simp_all add: ts_def)
    have T: "int (length (filter is_filtered (map ?f (drop cur ts))))
         = of_bool (is_filtered (?f (ts ! cur)))
           + int (length (filter is_filtered (map ?f (drop c' (head s')))))"
      unfolding hs' using True c'1 c'2 fhid by (intro walk_count) (simp_all add: ts_def)
    have tc': "taskcount s' = taskcount s + of_bool (is_filtered (?f (ts ! cur)))"
      unfolding ts_def using True by (simp add: s'_def filter_step_eq fcur[unfolded ts_def])
    have ttc': "totaltaskcount s' = totaltaskcount s + 1"
      by (simp add: s'_def filter_step_eq)
    have af': "active_filters s' = (if m = FILTER_CLEAR then [] else active_filters s)"
      by (simp add: s'_def filter_step_eq)
    have rest: "s'\<lparr>head := h, taskcount := a, totaltaskcount := b, active_filters := c\<rparr>
        = s\<lparr>head := h, taskcount := a, totaltaskcount := b, active_filters := c\<rparr>" for h a b c
      by (simp add: s'_def filter_step_eq)
    have arith: "totaltaskcount s + 1 + int (c' - Suc cur) + int (length ts - c')
        = totaltaskcount s + int (length ts - cur)"
      using True c'1 c'2 by (simp add: ts_def)
    have e1: "take c' (head ?s'') @ map ?f (drop c' (head ?s'')) = take cur ts @ map ?f (drop cur ts)"
      using H by simp
    have e2: "taskcount ?s'' + int (length (filter is_filtered (map ?f (drop c' (head ?s''))))) =
        taskcount s + int (length (filter is_filtered (map ?f (drop cur ts))))"
      using T tc' by simp
    have e3: "totaltaskcount ?s'' + int (length (head ?s'') - c') =
        totaltaskcount s + int (length ts - cur)"
      using arith ttc' len' by (simp add: nxt_eq)
    have e4: "(if m = FILTER_CLEAR \<and> c' < length (head ?s'') then [] else active_filters ?s'') =
        (if m = FILTER_CLEAR then [] else active_filters s)"
      using af' by simp
    have e5: "?s''\<lparr>head := h, taskcount := a, totaltaskcount := b, active_filters := c\<rparr>
        = s\<lparr>head := h, taskcount := a, totaltaskcount := b, active_filters := c\<rparr>" for h a b c
      by (simp add: s'_def filter_step_eq)
    have "filter_loop rc skip m v cur s =
       s\<lparr>head := take cur ts @ map ?f (drop cur ts),
         taskcount := taskcount s + int (length (filter is_filtered (map ?f (drop cur ts)))),
         totaltaskcount := totaltaskcount s + int (length ts - cur),
         active_filters := (if m = FILTER_CLEAR then [] else active_filters s)\<rparr>"
      unfolding step IH e1 e2 e3 e4 e5 ..
    then show ?thesis
      using True by (simp add: ts_def)
  qed
qed

lemma filter_tasks_spec:
  "filter_tasks rc f s =
     s\<lparr>head := map (vis_update (cfg_filter_persist s \<noteq> 0 \<and> mode f \<noteq> FILTER_CLEAR) rc
                     (mode f) (string f)) (head s),
       taskcount := int (length (filter is_filtered
          (map (vis_update (cfg_filter_persist s \<noteq> 0 \<and> mode f \<noteq> FILTER_CLEAR) rc
                     (mode f) (string f)) (head s)))),
       totaltaskcount := int (length (head s)),
       active_filters := (if mode f = FILTER_CLEAR \<and> head s \<noteq> [] then [] else active_filters s)\<rparr>"
proof -
  define skip where "skip = (cfg_filter_persist s \<noteq> 0 \<and> mode f \<noteq> FILTER_CLEAR)"
  define ts where "ts = head s"
  let ?f = "vis_update skip rc (mode f) (string f)"
  define s0 where "s0 = s\<lparr>taskcount := 0, totaltaskcount := 0\<rparr>"
  define nxt where "nxt = (if skip then skip_filtered (head s0) 0 (totaltaskcount s0)
                           else (0, totaltaskcount s0))"
  have hs0: "head s0 = ts" "taskcount s0 = 0" "totaltaskcount s0 = 0"
    "active_filters s0 = active_filters s"
    by (simp_all add: s0_def ts_def)
  obtain c where nxt_eq: "nxt = (c, int c)" and c: "c \<le> length ts"
    and hid: "\<forall>i. i < c \<longrightarrow> skip \<and> \<not> is_filtered (ts ! i)"
    and nvis: "skip \<longrightarrow> c < length ts \<longrightarrow> is_filtered (ts ! c)"
  proof (cases skip)
    case True
    from skip_filtered_spec[of 0 ts 0]
    obtain c' where "skip_filtered ts 0 0 = (c', int c')" "c' \<le> length ts"
      "\<forall>i. i < c' \<longrightarrow> \<not> is_filtered (ts ! i)" "c' < length ts \<longrightarrow> is_filtered (ts ! c')"
      by auto
    then show ?thesis using True that[of c'] by (simp add: nxt_def hs0)
  next
    case False
    then show ?thesis using that[of 0] by (simp add: nxt_def hs0)
  qed
  let ?s1 = "s0\<lparr>totaltaskcount := snd nxt\<rparr>"
  have unf: "filter_tasks rc f s = filter_loop rc skip (mode f) (string f) c ?s1"
    unfolding filter_tasks_def Let_def skip_def[symmetric] s0_def[symmetric] nxt_def[symmetric]
    by (simp add: nxt_eq)
  have spec: "filter_loop rc skip (mode f) (string f) c ?s1 =
     ?s1\<lparr>head := take c (head ?s1) @ map ?f (drop c (head ?s1)),
       taskcount := taskcount ?s1 + int (length (filter is_filtered (map ?f (drop c (head ?s1))))),
       totaltaskcount := totaltaskcount ?s1 + int (length (head ?s1) - c),
       active_filters :=
         (if mode f = FILTER_CLEAR \<and> c < length (head ?s1) then [] else active_filters ?s1)\<rparr>"
    using c nvis by (intro filter_loop_spec) (simp_all add: hs0)
  have fid: "\<forall>i. 0 \<le> i \<and> i < c \<longrightarrow> ?f (ts ! i) = ts ! i"
    using hid by (simp add: vis_update_def)
  have fhid: "\<forall>i. 0 \<le> i \<and> i < c \<longrightarrow> \<not> is_filtered (?f (ts ! i))"
    using hid by (simp add: vis_update_def)
  have "map ?f (take c ts) = take c ts"
    using fid c by (intro nth_equalityI) simp_all
  then have "take c ts @ map ?f (drop c ts) = map ?f (take c ts @ drop c ts)"
    by (simp only: map_append)
  then have e1: "take c (head ?s1) @ map ?f (drop c (head ?s1)) = map ?f ts"
    by (simp add: hs0)
  have "filter is_filtered (map ?f (drop 0 ts)) = filter is_filtered (map ?f (drop c ts))"
    using c fhid by (intro filter_drop_hidden) simp_all
  then have e2: "taskcount ?s1 + int (length (filter is_filtered (map ?f (drop c (head ?s1)))))
      = int (length (filter is_filtered (map ?f ts)))"
    by (simp add: hs0)
  have e3: "totaltaskcount ?s1 + int (length (head ?s1) - c) = int (length ts)"
    using c by (simp add: hs0 nxt_eq)
  have c0: "mode f = FILTER_CLEAR \<Longrightarrow> c = 0"
    using hid by (cases c) (auto simp: skip_def)
  have e4: "(if mode f = FILTER_CLEAR \<and> c < length (head ?s1) then [] else active_filters ?s1)
      = (if mode f = FILTER_CLEAR \<and> ts \<noteq> [] then [] else active_filters s)"
    using c0 by (auto simp: hs0)
  have e5: "?s1\<lparr>head := h, taskcount := a, totaltaskcount := b, active_filters := d\<rparr>
      = s\<lparr>head := h, taskcount := a, totaltaskcount := b, active_filters := d\<rparr>" for h a b d
    by (simp add: s0_def)
  have "filter_tasks rc f s =
     s\<lparr>head := map ?f ts,
       taskcount := int (length (filter is_filtered (map ?f ts))),
       totaltaskcount := int (length ts),
       active_filters := (if mode f = FILTER_CLEAR \<and> ts \<noteq> [] then [] else active_filters s)\<rparr>"
    unfolding unf spec e1 e2 e3 e4 e5 ..
  then show ?thesis
    unfolding skip_def ts_def .
qed

lemma filter_tasks_frame:
  "cfg_filter_persist (filter_tasks rc f s) = cfg_filter_persist s
   \<and> cfg_filter_cascade (filter_tasks rc f s) = cfg_filter_cascade s
   \<and> sb_message (filter_tasks rc f s) = sb_message s
   \<and> selline (filter_tasks rc f s) = selline s
   \<and> length (head (filter_tasks rc f s)) = length (head s)"
  by (simp add: filter_tasks_spec)

lemma filter_tasks_counts:
  "taskcount (filter_tasks rc f s) = int (length (filter is_filtered (head (filter_tasks rc f s))))
   \<and> totaltaskcount (filter_tasks rc f s) = int (length (head (filter_tasks rc f s)))"
  by (simp add: filter_tasks_spec)

lemma filter_tasks_clear:
  "mode f = FILTER_CLEAR \<Longrightarrow>
   head (filter_tasks rc f s) = map (\<lambda>t. t\<lparr>is_filtered := True\<rparr>) (head s)"
  by (simp add: filter_tasks_spec vis_update_def filter_eval_def FILTER_CLEAR_def
        FILTER_DESCRIPTION_def FILTER_TAGS_def FILTER_PROJECT_def)

lemma add_filter_head:
  "mode f \<ge> 0 \<Longrightarrow>
   head (add_filter rc f s) = head (filter_tasks rc f s)
   \<and> taskcount (add_filter rc f s) = taskcount (filter_tasks rc f s)
   \<and> cfg_filter_persist (add_filter rc f s) = cfg_filter_persist s"
  by (simp add: add_filter_def Let_def filter_tasks_frame)

lemma check_curs_pos_frame2:
  "head (check_curs_pos s) = head s \<and> totaltaskcount (check_curs_pos s) = totaltaskcount s
   \<and> sb_message (check_curs_pos s) = sb_message s
   \<and> active_filters (check_curs_pos s) = active_filters s"
  by (simp add: check_curs_pos_def Let_def)

lemma filter_key_valid:
  assumes "c \<in> of_char ` set ''acdptACDPT''"
  shows "strchr_found ''acdptACDPT'' c \<and> 0 \<le> mode (filter_of_key c tmpstr)"
proof -
  obtain x where x: "c = of_char x" "x \<in> set ''acdptACDPT''"
    using assms by blast
  have "strchr_found ''acdptACDPT'' c"
    unfolding strchr_found_def x(1) using x(2) by simp
  moreover have "0 \<le> mode (filter_of_key c tmpstr)"
    using x(2) unfolding x(1)
    by (auto simp: filter_of_key_def FILTER_BY_STRING_def FILTER_CLEAR_def
          FILTER_DESCRIPTION_def FILTER_TAGS_def FILTER_PROJECT_def)
  ultimately show ?thesis ..
qed

lemma key_filter_reset:
  assumes key: "c \<in> of_char ` set ''acdptACDPT''"
    and zero: "\<forall>t \<in> set (head (add_filter rc (filter_of_key c tmpstr) s)). \<not> is_filtered t"
  shows "(\<forall>t \<in> set (head (key_filter rc c tmpstr s)). is_filtered t)
     \<and> taskcount (key_filter rc c tmpstr s) = int (length (head s))
     \<and> totaltaskcount (key_filter rc c tmpstr s) = int (length (head s))
     \<and> length (head (key_filter rc c tmpstr s)) = length (head s)
     \<and> active_filters (key_filter rc c tmpstr s) = (if head s = [] then active_filters (add_filter rc (filter_of_key c tmpstr) s) else [])
     \<and> sb_message (key_filter rc c tmpstr s) = ''filter yielded no results; reset''"
proof -
  define f where "f = filter_of_key c tmpstr"
  have valid: "strchr_found ''acdptACDPT'' c" and m: "0 \<le> mode f"
    using filter_key_valid[OF key, of tmpstr] by (simp_all add: f_def)
  define s2 where "s2 = add_filter rc f s"
  have h2: "head s2 = head (filter_tasks rc f s)"
    and t2: "taskcount s2 = taskcount (filter_tasks rc f s)"
    using add_filter_head[OF m, of rc s] by (simp_all add: s2_def)
  have "filter is_filtered (head s2) = []"
    using zero by (simp add: s2_def f_def filter_empty_conv)
  then have tc0: "taskcount s2 = 0"
    using filter_tasks_counts[of rc f s] by (simp add: h2 t2)
  have len2: "length (head s2) = length (head s)"
    by (simp add: h2 filter_tasks_frame)
  define s3 where "s3 = (filter_tasks rc \<lparr>mode = FILTER_CLEAR, string = None\<rparr> s2)
      \<lparr>sb_message := ''filter yielded no results; reset''\<rparr>"
  have kf: "key_filter rc c tmpstr s = check_curs_pos s3"
    using valid m tc0
    by (simp add: key_filter_def Let_def f_def[symmetric] s2_def[symmetric] s3_def)
  have h3: "head s3 = map (\<lambda>t. t\<lparr>is_filtered := True\<rparr>) (head s2)"
    by (simp add: s3_def filter_tasks_clear)
  have c3: "taskcount s3 = int (length (head s2))" "totaltaskcount s3 = int (length (head s2))"
    using filter_tasks_counts[of rc "\<lparr>mode = FILTER_CLEAR, string = None\<rparr>" s2] h3
    by (simp_all add: s3_def)
  have a3: "active_filters s3 = (if head s2 = [] then active_filters s2 else [])"
    by (simp add: s3_def filter_tasks_spec)
  have tcc: "taskcount (check_curs_pos s3) = taskcount s3"
    by (simp add: check_curs_pos_frame)
  have m3: "sb_message s3 = ''filter yielded no results; reset''"
    by (simp add: s3_def)
  have e: "head s2 = [] \<longleftrightarrow> head s = []"
    using len2 by (metis length_0_conv)
  show ?thesis
    unfolding kf
    using h3 c3 a3 len2 e m3
    by (simp add: check_curs_pos_frame2 tcc s2_def f_def)
qed

lemma invalid_regex_hides_all:
  assumes "rc (string f) = None" "mode f \<noteq> FILTER_CLEAR"
  shows "(\<forall>t \<in> set (head (filter_tasks rc f s)). \<not> is_filtered t)
    \<and> taskcount (filter_tasks rc f s) = 0"
proof -
  have ms: "match_string rc h (string f) = 0" for h
    using assms(1) by (simp add: match_string_def split: option.splits)
  have "\<not> filter_eval rc (mode f) (string f) t" for t
    using assms(2) by (simp add: filter_eval_def task_match_def ms)
  then have hid: "\<not> is_filtered (vis_update b rc (mode f) (string f) t)" for b t
    by (simp add: vis_update_def)
  then have "filter is_filtered (map (vis_update b rc (mode f) (string f)) ts) = []" for b ts
    by (simp add: filter_empty_conv)
  then show ?thesis
    using hid by (simp add: filter_tasks_spec)
qed

lemmas example_defs =
  mk_task_def mk_state_def malloc_task_def toy_regcomp_def filter_eval_def vis_update_def
  match_string_def task_match_def FILTER_BY_STRING_def FILTER_CLEAR_def
  FILTER_DESCRIPTION_def FILTER_TAGS_def FILTER_PROJECT_def

text \<open>
  C5. With filter persistence on and a second filter that is not the clear filter, the
  pass for the second filter after the pass for the first leaves the list as long as it
  was, shows only tasks that the first pass left visible, and changes nothing but the
  visibility of the tasks that were visible: each of them is evaluated against the
  second filter, each hidden task stays as it is.
\<close>

theorem filter_persist_subset:
  assumes "cfg_filter_persist s \<noteq> 0" and "mode F2 \<noteq> FILTER_CLEAR"
  shows "(let s1 = filter_tasks rc F1 s; s2 = filter_tasks rc F2 s1 in
            length (head s2) = length (head s1)
            \<and> {i. i < length (head s2) \<and> is_filtered (head s2 ! i)}
                \<subseteq> {i. i < length (head s1) \<and> is_filtered (head s1 ! i)}
            \<and> head s2 =
                map (\<lambda>t. if is_filtered t
                          then t\<lparr>is_filtered := filter_eval rc (mode F2) (string F2) t\<rparr>
                          else t) (head s1))"
proof -
  define s1 where "s1 = filter_tasks rc F1 s"
  define g where "g = (\<lambda>t. if is_filtered t
      then t\<lparr>is_filtered := filter_eval rc (mode F2) (string F2) t\<rparr> else t)"
  have p1: "cfg_filter_persist s1 \<noteq> 0"
    using assms(1) by (simp add: s1_def filter_tasks_frame)
  have vu: "vis_update True rc (mode F2) (string F2) = g"
    by (rule ext) (simp add: vis_update_def g_def)
  have h2: "head (filter_tasks rc F2 s1) = map g (head s1)"
    using p1 assms(2) by (simp add: filter_tasks_spec vu)
  have sub: "is_filtered (g t) \<Longrightarrow> is_filtered t" for t
    by (simp add: g_def split: if_splits)
  have "{i. i < length (map g (head s1)) \<and> is_filtered (map g (head s1) ! i)}
      \<subseteq> {i. i < length (head s1) \<and> is_filtered (head s1 ! i)}"
    using sub by auto
  then show ?thesis
    unfolding Let_def s1_def[symmetric] h2 g_def[symmetric] by simp
qed

theorem filter_persist_subset_witness:
  "cfg_filter_persist
     (mk_state [mk_task 0 (Some ''A'') (CHR 0x00) 0, mk_task 1 (Some ''B'') (CHR 0x00) 0,
                (mk_task 2 (Some ''A'') (CHR 0x00) 0)\<lparr>description := Some ''yz''\<rparr>] 1 1) \<noteq> 0
   \<and> mode \<lparr>mode = FILTER_DESCRIPTION, string = Some ''x''\<rparr> \<noteq> FILTER_CLEAR
   \<and> map is_filtered (head (filter_tasks toy_regcomp \<lparr>mode = FILTER_PROJECT, string = Some ''A''\<rparr>
       (mk_state [mk_task 0 (Some ''A'') (CHR 0x00) 0, mk_task 1 (Some ''B'') (CHR 0x00) 0,
                (mk_task 2 (Some ''A'') (CHR 0x00) 0)\<lparr>description := Some ''yz''\<rparr>] 1 1)))
     = [True, False, True]
   \<and> map is_filtered (head (filter_tasks toy_regcomp \<lparr>mode = FILTER_DESCRIPTION, string = Some ''x''\<rparr>
       (filter_tasks toy_regcomp \<lparr>mode = FILTER_PROJECT, string = Some ''A''\<rparr>
       (mk_state [mk_task 0 (Some ''A'') (CHR 0x00) 0, mk_task 1 (Some ''B'') (CHR 0x00) 0,
                (mk_task 2 (Some ''A'') (CHR 0x00) 0)\<lparr>description := Some ''yz''\<rparr>] 1 1))))
     = [True, False, False]"
proof -
  let ?s = "mk_state [mk_task 0 (Some ''A'') (CHR 0x00) 0, mk_task 1 (Some ''B'') (CHR 0x00) 0,
                (mk_task 2 (Some ''A'') (CHR 0x00) 0)\<lparr>description := Some ''yz''\<rparr>] 1 1"
  let ?F1 = "\<lparr>mode = FILTER_PROJECT, string = Some ''A''\<rparr>"
  let ?F2 = "\<lparr>mode = FILTER_DESCRIPTION, string = Some ''x''\<rparr>"
  have h1: "cfg_filter_persist ?s \<noteq> 0" by (simp add: mk_state_def)
  have h2: "mode ?F2 \<noteq> FILTER_CLEAR" by (simp add: FILTER_DESCRIPTION_def FILTER_CLEAR_def)
  have c1: "map is_filtered (head (filter_tasks toy_regcomp ?F1 ?s)) = [True, False, True]"
    by (simp add: filter_tasks_spec example_defs)
  have c2: "map is_filtered (head (filter_tasks toy_regcomp ?F2 (filter_tasks toy_regcomp ?F1 ?s)))
      = [True, False, False]"
    by (simp add: filter_tasks_spec example_defs)
  show ?thesis
    using filter_persist_subset[OF h1 h2, of toy_regcomp ?F1] h1 h2 c1 c2 by blast
qed

text \<open>
  C6. When the filter that \<^verbatim>\<open>key_filter\<close> builds from a valid mode key leaves no task
  visible, \<^verbatim>\<open>key_filter\<close> applies the clear filter at once and reports the reset:
  afterwards every task is visible, and the visible count and the total count are both
  the length of the list.
\<close>

theorem filter_empty_reset:
  assumes "c \<in> of_char ` set ''acdptACDPT''"
    and "\<forall>t \<in> set (head (add_filter rc (filter_of_key c tmpstr) s)). \<not> is_filtered t"
  shows "(let s' = key_filter rc c tmpstr s in
            (\<forall>t \<in> set (head s'). is_filtered t)
            \<and> taskcount s' = totaltaskcount s'
            \<and> totaltaskcount s' = int (length (head s'))
            \<and> length (head s') = length (head s)
            \<and> sb_message s' = ''filter yielded no results; reset'')"
  using key_filter_reset[OF assms] by (simp add: Let_def)

theorem filter_empty_reset_witness:
  "(of_char (CHR ''p'') :: int) \<in> of_char ` set ''acdptACDPT''
   \<and> map is_filtered (head (add_filter toy_regcomp (filter_of_key (of_char (CHR ''p'')) ''Z'')
        (mk_state [mk_task 0 (Some ''A'') (CHR 0x00) 0, mk_task 1 (Some ''B'') (CHR 0x00) 0] 1 1)))
     = [False, False]
   \<and> (let s' = key_filter toy_regcomp (of_char (CHR ''p'')) ''Z''
        (mk_state [mk_task 0 (Some ''A'') (CHR 0x00) 0, mk_task 1 (Some ''B'') (CHR 0x00) 0] 1 1)
      in (\<forall>t \<in> set (head s'). is_filtered t)
            \<and> taskcount s' = totaltaskcount s'
            \<and> totaltaskcount s' = int (length (head s'))
            \<and> length (head s') = length (head
                (mk_state [mk_task 0 (Some ''A'') (CHR 0x00) 0, mk_task 1 (Some ''B'') (CHR 0x00) 0] 1 1))
            \<and> sb_message s' = ''filter yielded no results; reset'')"
proof -
  let ?s = "mk_state [mk_task 0 (Some ''A'') (CHR 0x00) 0, mk_task 1 (Some ''B'') (CHR 0x00) 0] 1 1"
  let ?c = "of_char (CHR ''p'') :: int"
  have key: "?c \<in> of_char ` set ''acdptACDPT''" by simp
  have hid: "map is_filtered (head (add_filter toy_regcomp (filter_of_key ?c ''Z'') ?s))
      = [False, False]"
    by (simp add: add_filter_def filter_of_key_def Let_def filter_tasks_spec example_defs)
  have zero: "\<forall>t \<in> set (head (add_filter toy_regcomp (filter_of_key ?c ''Z'') ?s)).
      \<not> is_filtered t"
    by (simp add: add_filter_def filter_of_key_def Let_def filter_tasks_spec example_defs)
  show ?thesis
    using filter_empty_reset[OF key zero] key hid by blast
qed

lemma filter_key_pattern:
  assumes "c \<in> of_char ` set ''adptADPT''"
  shows "mode (filter_of_key c tmpstr) \<noteq> FILTER_CLEAR \<and> string (filter_of_key c tmpstr) = Some tmpstr
    \<and> c \<in> of_char ` set ''acdptACDPT''"
proof -
  obtain x where x: "c = of_char x" "x \<in> set ''adptADPT''"
    using assms by blast
  show ?thesis
    using x(2) unfolding x(1)
    by (auto simp: filter_of_key_def FILTER_BY_STRING_def FILTER_CLEAR_def
          FILTER_DESCRIPTION_def FILTER_TAGS_def FILTER_PROJECT_def)
qed

text \<open>
  C10. \<^verbatim>\<open>match_string\<close> returns 0 for a NULL haystack, and for every haystack when the
  pattern does not compile. A filter pass with such a pattern and a mode other than
  clear therefore leaves every task hidden and the visible count at 0, and \<^verbatim>\<open>key_filter\<close>
  with such a pattern ends in the reset: every task visible, the message of the reset
  on the status bar. No case of these functions is an error.
\<close>

theorem match_string_invalid_regex:
  assumes "rc needle = None"
  shows "match_string rc None needle' = 0
    \<and> match_string rc haystack needle = 0
    \<and> (mode f \<noteq> FILTER_CLEAR \<and> string f = needle \<longrightarrow>
         (\<forall>t \<in> set (head (filter_tasks rc f s)). \<not> is_filtered t)
         \<and> taskcount (filter_tasks rc f s) = 0)
    \<and> (c \<in> of_char ` set ''adptADPT'' \<and> needle = Some tmpstr \<longrightarrow>
         (let s' = key_filter rc c tmpstr s in
            (\<forall>t \<in> set (head s'). is_filtered t)
            \<and> taskcount s' = int (length (head s))
            \<and> sb_message s' = ''filter yielded no results; reset''))"
proof (intro conjI impI)
  show "match_string rc None needle' = 0"
    by (simp add: match_string_def)
  show "match_string rc haystack needle = 0"
    using assms by (simp add: match_string_def split: option.splits)
next
  assume a: "mode f \<noteq> FILTER_CLEAR \<and> string f = needle"
  then have "rc (string f) = None" using assms by simp
  then show "\<forall>t \<in> set (head (filter_tasks rc f s)). \<not> is_filtered t"
    and "taskcount (filter_tasks rc f s) = 0"
    using invalid_regex_hides_all[of rc f s] a by simp_all
next
  assume a: "c \<in> of_char ` set ''adptADPT'' \<and> needle = Some tmpstr"
  define f where "f = filter_of_key c tmpstr"
  have fk: "mode f \<noteq> FILTER_CLEAR" "string f = Some tmpstr" "c \<in> of_char ` set ''acdptACDPT''"
    using filter_key_pattern[of c tmpstr] a by (simp_all add: f_def)
  have m: "0 \<le> mode f"
    using filter_key_valid[OF fk(3), of tmpstr] by (simp add: f_def)
  have "rc (string f) = None" using assms a fk(2) by simp
  then have "\<forall>t \<in> set (head (filter_tasks rc f s)). \<not> is_filtered t"
    using invalid_regex_hides_all[of rc f s] fk(1) by simp
  then have "\<forall>t \<in> set (head (add_filter rc (filter_of_key c tmpstr) s)). \<not> is_filtered t"
    using add_filter_head[OF m, of rc s] by (simp add: f_def)
  from key_filter_reset[OF fk(3) this]
  show "let s' = key_filter rc c tmpstr s in
            (\<forall>t \<in> set (head s'). is_filtered t)
            \<and> taskcount s' = int (length (head s))
            \<and> sb_message s' = ''filter yielded no results; reset''"
    by (simp add: Let_def)
qed

theorem match_string_invalid_regex_witness:
  "toy_regcomp (Some ''[a'') = None
   \<and> match_string toy_regcomp (Some ''a[a'') (Some ''[a'') = 0
   \<and> match_string toy_regcomp (Some ''a[a'') (Some ''a'') = 1
   \<and> map is_filtered (head (filter_tasks toy_regcomp \<lparr>mode = FILTER_PROJECT, string = Some ''[a''\<rparr>
        (mk_state [mk_task 0 (Some ''a[a'') (CHR 0x00) 0, mk_task 1 None (CHR 0x00) 0] 0 0)))
     = [False, False]
   \<and> (let s' = key_filter toy_regcomp (of_char (CHR ''p'')) ''[a''
        (mk_state [mk_task 0 (Some ''a[a'') (CHR 0x00) 0, mk_task 1 None (CHR 0x00) 0] 0 0)
      in (\<forall>t \<in> set (head s'). is_filtered t)
         \<and> taskcount s' = int (length (head
              (mk_state [mk_task 0 (Some ''a[a'') (CHR 0x00) 0, mk_task 1 None (CHR 0x00) 0] 0 0)))
         \<and> sb_message s' = ''filter yielded no results; reset'')"
proof -
  let ?s = "mk_state [mk_task 0 (Some ''a[a'') (CHR 0x00) 0, mk_task 1 None (CHR 0x00) 0] 0 0"
  let ?f = "\<lparr>mode = FILTER_PROJECT, string = Some ''[a''\<rparr>"
  let ?c = "of_char (CHR ''p'') :: int"
  have h: "toy_regcomp (Some ''[a'') = None" by (simp add: toy_regcomp_def)
  have m1: "match_string toy_regcomp (Some ''a[a'') (Some ''a'') = 1"
    by (simp add: match_string_def toy_regcomp_def)
  have e1: "map is_filtered (head (filter_tasks toy_regcomp ?f ?s)) = [False, False]"
    by (simp add: filter_tasks_spec example_defs)
  have k: "?c \<in> of_char ` set ''adptADPT''" by simp
  show ?thesis
    using match_string_invalid_regex[of toy_regcomp "Some ''[a''" "Some ''a[a''" "Some ''a[a''"
      ?f ?s ?c "''[a''", OF h] h m1 e1 k by blast
qed

subsection \<open>The search\<close>

lemma vis_between_front:
  "a < b \<Longrightarrow> vis_between ts a b = of_bool (is_filtered (ts ! a)) + vis_between ts (Suc a) b"
  unfolding vis_between_def by (rule sum.atLeast_Suc_lessThan)

lemma vis_between_empty [simp]: "vis_between ts a a = 0"
  by (simp add: vis_between_def)

lemma sel_task_loop_spec:
  "sel_task_loop ts sel cur i = Some p \<Longrightarrow>
   cur \<le> p \<and> p < length ts \<and> sel = i + vis_between ts cur (Suc p)
   \<and> ((p = cur \<and> i = sel) \<or> is_filtered (ts ! p))"
proof (induction ts sel cur i rule: sel_task_loop.induct)
  case (1 ts sel cur i)
  have lt: "cur < length ts"
    using "1.prems" by (subst (asm) sel_task_loop.simps) (simp split: if_splits)
  define i' where "i' = i + of_bool (is_filtered (ts ! cur))"
  show ?case
  proof (cases "i' = sel")
    case True
    then have "p = cur"
      using "1.prems" lt by (subst (asm) sel_task_loop.simps) (simp add: i'_def Let_def)
    then show ?thesis
      using True lt by (auto simp: i'_def vis_between_front)
  next
    case False
    then have rec: "sel_task_loop ts sel (Suc cur) i' = Some p"
      using "1.prems" lt by (subst (asm) sel_task_loop.simps) (simp add: i'_def Let_def)
    from "1.IH"[OF lt i'_def False rec]
    have ih: "Suc cur \<le> p" "p < length ts" "sel = i' + vis_between ts (Suc cur) (Suc p)"
      "is_filtered (ts ! p)"
      using False by auto
    have "vis_between ts cur (Suc p) = of_bool (is_filtered (ts ! cur)) + vis_between ts (Suc cur) (Suc p)"
      using ih(1) by (intro vis_between_front) simp
    then show ?thesis
      using ih by (simp add: i'_def add.assoc)
  qed
qed

lemma search_loop_closing:
  assumes "p < length ts" "is_filtered (ts ! p)"
    and "\<forall>i. cur < i \<and> i < p \<and> is_filtered (ts ! i) \<longrightarrow> task_match rc (ts ! i) str \<noteq> 1"
    and "cur < p"
  shows "search_loop rc str ts p cur sel =
         Some (sel + vis_between ts (Suc cur) (Suc p), task_match rc (ts ! p) str = 1)"
  using assms(3,4)
proof (induction "p - cur" arbitrary: cur sel)
  case 0
  then show ?case by simp
next
  case (Suc k)
  have nx: "next_task ts cur = Some (Suc cur)"
    using Suc.prems assms(1) by (simp add: next_task_def)
  show ?case
  proof (cases "Suc cur = p")
    case True
    have "vis_between ts p (Suc p) = 1"
      using assms(2) by (simp add: vis_between_front)
    then show ?thesis
      using True nx assms(2)
      by (subst search_loop.simps) (auto simp: Let_def)
  next
    case False
    then have lt: "Suc cur < p" using Suc.prems by simp
    have IH: "search_loop rc str ts p (Suc cur) sel' =
        Some (sel' + vis_between ts (Suc (Suc cur)) (Suc p), task_match rc (ts ! p) str = 1)" for sel'
      using Suc.hyps(2) Suc.prems lt by (intro Suc.hyps(1)) auto
    have front: "vis_between ts (Suc cur) (Suc p) =
        of_bool (is_filtered (ts ! Suc cur)) + vis_between ts (Suc (Suc cur)) (Suc p)"
      using lt by (intro vis_between_front) simp
    show ?thesis
    proof (cases "is_filtered (ts ! Suc cur)")
      case True
      then have "task_match rc (ts ! Suc cur) str \<noteq> 1"
        using Suc.prems lt by simp
      then show ?thesis
        using True nx lt front
        by (subst search_loop.simps) (simp add: Let_def IH add.assoc)
    next
      case False
      then show ?thesis
        using nx front by (subst search_loop.simps) (simp add: IH)
    qed
  qed
qed

lemma search_loop_wrap:
  assumes "p < length ts" "p = 0 \<or> is_filtered (ts ! p)"
    and "\<forall>i. i < p \<and> (is_filtered (ts ! i) \<or> i = 0) \<longrightarrow> task_match rc (ts ! i) str \<noteq> 1"
    and "next_task ts cur = None"
  shows "search_loop rc str ts p cur sel =
         Some (- 1 + vis_between ts 0 (Suc p), task_match rc (ts ! p) str = 1)"
proof (cases "p = 0")
  case True
  have "(if is_filtered (ts ! 0) then 0 else - 1 :: 16 word) = - 1 + vis_between ts 0 (Suc 0)"
    by (simp add: vis_between_front)
  then show ?thesis
    using True assms(4)
    by (subst search_loop.simps) (auto simp: Let_def)
next
  case False
  then have vis: "is_filtered (ts ! p)" and pos: "0 < p" using assms(2) by auto
  have nm: "task_match rc (ts ! 0) str \<noteq> 1" using assms(3) pos by simp
  have cl: "search_loop rc str ts p 0 sel' =
      Some (sel' + vis_between ts (Suc 0) (Suc p), task_match rc (ts ! p) str = 1)" for sel'
    using assms(1,3) vis pos by (intro search_loop_closing) auto
  have front: "vis_between ts 0 (Suc p) = of_bool (is_filtered (ts ! 0)) + vis_between ts (Suc 0) (Suc p)"
    by (intro vis_between_front) simp
  show ?thesis
    using False assms(4) nm front
    by (subst search_loop.simps) (auto simp: Let_def cl)
qed

lemma search_loop_leaving:
  assumes "p < length ts" "p = 0 \<or> is_filtered (ts ! p)"
    and "\<forall>i. i < length ts \<and> i \<noteq> p \<and> (is_filtered (ts ! i) \<or> i = 0) \<longrightarrow>
           task_match rc (ts ! i) str \<noteq> 1"
    and "p \<le> cur" "cur < length ts"
  shows "search_loop rc str ts p cur sel =
         Some (- 1 + vis_between ts 0 (Suc p), task_match rc (ts ! p) str = 1)"
  using assms(4,5)
proof (induction "length ts - cur" arbitrary: cur sel)
  case 0
  then show ?case by simp
next
  case (Suc k)
  show ?case
  proof (cases "Suc cur < length ts")
    case False
    then have "next_task ts cur = None" by (simp add: next_task_def)
    then show ?thesis
      using assms(1,2,3) by (intro search_loop_wrap) auto
  next
    case True
    then have nx: "next_task ts cur = Some (Suc cur)" by (simp add: next_task_def)
    have IH: "search_loop rc str ts p (Suc cur) sel' =
        Some (- 1 + vis_between ts 0 (Suc p), task_match rc (ts ! p) str = 1)" for sel'
      using Suc.hyps(2) Suc.prems True by (intro Suc.hyps(1)) auto
    have ne: "Suc cur \<noteq> p" using Suc.prems by simp
    show ?thesis
    proof (cases "is_filtered (ts ! Suc cur)")
      case vis: True
      then have "task_match rc (ts ! Suc cur) str \<noteq> 1"
        using assms(3) True ne by simp
      then show ?thesis
        using vis nx ne by (subst search_loop.simps) (simp add: Let_def IH)
    next
      case False
      then show ?thesis
        using nx by (subst search_loop.simps) (simp add: IH)
    qed
  qed
qed

lemma find_next_on_start:
  assumes "sel_task s = Some p"
    and "\<forall>i < length (head s). i \<noteq> p \<longrightarrow> (is_filtered (head s ! i) \<or> i = 0) \<longrightarrow>
           task_match rc (head s ! i) (searchstring s) \<noteq> 1"
  shows "find_next_search_result rc (sel_task s) s =
     Some (if task_match rc (head s ! p) (searchstring s) = 1 then s
           else s\<lparr>sb_message := ''no matches: '' @
                    (case searchstring s of None \<Rightarrow> ''(null)'' | Some x \<Rightarrow> x)\<rparr>)"
proof -
  from sel_task_loop_spec[OF assms(1)[unfolded sel_task_def]]
  have p: "p < length (head s)" and sel: "selline s = - 1 + vis_between (head s) 0 (Suc p)"
    and vis: "p = 0 \<or> is_filtered (head s ! p)"
    by auto
  have "search_loop rc (searchstring s) (head s) p p (selline s) =
      Some (- 1 + vis_between (head s) 0 (Suc p), task_match rc (head s ! p) (searchstring s) = 1)"
    using p vis assms(2) by (intro search_loop_leaving) auto
  then have "search_loop rc (searchstring s) (head s) p p (selline s) =
      Some (selline s, task_match rc (head s ! p) (searchstring s) = 1)"
    unfolding sel[symmetric] .
  then show ?thesis
    by (simp add: find_next_search_result_def assms(1))
qed

lemmas example_defs2 =
  mk_task_def mk_state_def malloc_task_def toy_regcomp_def
  match_string_def task_match_def

text \<open>
  C7 (as amended). When \<^verbatim>\<open>find_next_search_result\<close> starts from the selected task and no
  other task that the walk tests (the visible tasks, and the head of the list at the
  wrap) matches, the walk returns, and the selected line is what it was. The engine
  reports "no matches" only when the starting task does not match either: the starting
  task is tested when the loop closes on it, and when it matches the walk ends on it
  without a message.
\<close>

theorem search_closes_on_start:
  assumes "sel_task s = Some p"
    and "\<forall>i < length (head s). i \<noteq> p \<longrightarrow> (is_filtered (head s ! i) \<or> i = 0) \<longrightarrow>
           task_match rc (head s ! i) (searchstring s) \<noteq> 1"
  shows "find_next_search_result rc (sel_task s) s =
     Some (if task_match rc (head s ! p) (searchstring s) = 1 then s
           else s\<lparr>sb_message := ''no matches: '' @
                    (case searchstring s of None \<Rightarrow> ''(null)'' | Some x \<Rightarrow> x)\<rparr>)"
  using assms by (rule find_next_on_start)

theorem search_closes_on_start_witness:
  "sel_task ((mk_state [mk_task 0 (Some ''A'') (CHR 0x00) 0, mk_task 1 (Some ''B'') (CHR 0x00) 0] 0 0)
       \<lparr>selline := 1, searchstring := Some ''Z''\<rparr>) = Some 1
   \<and> find_next_search_result toy_regcomp
       (sel_task ((mk_state [mk_task 0 (Some ''A'') (CHR 0x00) 0, mk_task 1 (Some ''B'') (CHR 0x00) 0] 0 0)
          \<lparr>selline := 1, searchstring := Some ''Z''\<rparr>))
       ((mk_state [mk_task 0 (Some ''A'') (CHR 0x00) 0, mk_task 1 (Some ''B'') (CHR 0x00) 0] 0 0)
          \<lparr>selline := 1, searchstring := Some ''Z''\<rparr>)
     = Some ((mk_state [mk_task 0 (Some ''A'') (CHR 0x00) 0, mk_task 1 (Some ''B'') (CHR 0x00) 0] 0 0)
          \<lparr>selline := 1, searchstring := Some ''Z'', sb_message := ''no matches: Z''\<rparr>)"
proof -
  let ?s = "(mk_state [mk_task 0 (Some ''A'') (CHR 0x00) 0, mk_task 1 (Some ''B'') (CHR 0x00) 0] 0 0)
       \<lparr>selline := 1, searchstring := Some ''Z''\<rparr>"
  have hd: "head ?s = [mk_task 0 (Some ''A'') (CHR 0x00) 0, mk_task 1 (Some ''B'') (CHR 0x00) 0]"
    "selline ?s = 1" "searchstring ?s = Some ''Z''"
    by (simp_all add: mk_state_def)
  have sel: "sel_task ?s = Some 1"
    unfolding sel_task_def hd
    by (simp add: sel_task_loop.simps mk_task_def malloc_task_def Let_def)
  have nm: "task_match toy_regcomp t (Some ''Z'') \<noteq> 1"
    if "t = mk_task 0 (Some ''A'') (CHR 0x00) 0 \<or> t = mk_task 1 (Some ''B'') (CHR 0x00) 0" for t
    using that by (auto simp: example_defs2)
  have other: "\<forall>i < length (head ?s). i \<noteq> 1 \<longrightarrow> (is_filtered (head ?s ! i) \<or> i = 0) \<longrightarrow>
           task_match toy_regcomp (head ?s ! i) (searchstring ?s) \<noteq> 1"
    unfolding hd using nm by (auto simp: less_Suc_eq)
  have start: "task_match toy_regcomp (head ?s ! 1) (searchstring ?s) \<noteq> 1"
    unfolding hd using nm by simp
  have "find_next_search_result toy_regcomp (sel_task ?s) ?s =
      Some (?s\<lparr>sb_message := ''no matches: Z''\<rparr>)"
    using search_closes_on_start[OF sel other, unfolded hd] start[unfolded hd] by simp
  then show ?thesis
    using sel by simp
qed

theorem search_accepts_start_counterexample:
  "sel_task ((mk_state [mk_task 0 (Some ''A'') (CHR 0x00) 0, mk_task 1 (Some ''B'') (CHR 0x00) 0] 0 0)
       \<lparr>searchstring := Some ''A''\<rparr>) = Some 0
   \<and> task_match toy_regcomp (mk_task 1 (Some ''B'') (CHR 0x00) 0) (Some ''A'') = 0
   \<and> task_match toy_regcomp (mk_task 0 (Some ''A'') (CHR 0x00) 0) (Some ''A'') = 1
   \<and> find_next_search_result toy_regcomp (Some 0)
       ((mk_state [mk_task 0 (Some ''A'') (CHR 0x00) 0, mk_task 1 (Some ''B'') (CHR 0x00) 0] 0 0)
          \<lparr>searchstring := Some ''A''\<rparr>)
     = Some ((mk_state [mk_task 0 (Some ''A'') (CHR 0x00) 0, mk_task 1 (Some ''B'') (CHR 0x00) 0] 0 0)
          \<lparr>searchstring := Some ''A''\<rparr>)
   \<and> sb_message ((mk_state [mk_task 0 (Some ''A'') (CHR 0x00) 0, mk_task 1 (Some ''B'') (CHR 0x00) 0] 0 0)
          \<lparr>searchstring := Some ''A''\<rparr>) = []"
proof -
  let ?s = "(mk_state [mk_task 0 (Some ''A'') (CHR 0x00) 0, mk_task 1 (Some ''B'') (CHR 0x00) 0] 0 0)
       \<lparr>searchstring := Some ''A''\<rparr>"
  have hd: "head ?s = [mk_task 0 (Some ''A'') (CHR 0x00) 0, mk_task 1 (Some ''B'') (CHR 0x00) 0]"
    "selline ?s = 0" "searchstring ?s = Some ''A''" "sb_message ?s = []"
    by (simp_all add: mk_state_def)
  have sel: "sel_task ?s = Some 0"
    unfolding sel_task_def hd
    by (simp add: sel_task_loop.simps mk_task_def malloc_task_def Let_def)
  have m0: "task_match toy_regcomp (mk_task 0 (Some ''A'') (CHR 0x00) 0) (Some ''A'') = 1"
    and m1: "task_match toy_regcomp (mk_task 1 (Some ''B'') (CHR 0x00) 0) (Some ''A'') = 0"
    by (simp_all add: example_defs2)
  have other: "\<forall>i < length (head ?s). i \<noteq> 0 \<longrightarrow> (is_filtered (head ?s ! i) \<or> i = 0) \<longrightarrow>
           task_match toy_regcomp (head ?s ! i) (searchstring ?s) \<noteq> 1"
    unfolding hd using m1 by (auto simp: less_Suc_eq)
  have "find_next_search_result toy_regcomp (sel_task ?s) ?s = Some ?s"
    using find_next_on_start[OF sel other, unfolded hd] m0 by simp
  then show ?thesis
    using sel m0 m1 hd(4) by simp
qed

subsection \<open>The order of the sort\<close>

lemma of_char_zero_iff: "(of_char c :: nat) = 0 \<longleftrightarrow> c = CHR 0x00"
proof -
  have "(of_char c :: nat) = of_char (CHR 0x00) \<longleftrightarrow> c = CHR 0x00"
    by (rule of_char_eq_iff)
  then show ?thesis by simp
qed

lemma strcmp_less_iff:
  "CHR 0x00 \<notin> set b \<Longrightarrow> strcmp a b < 0 \<longleftrightarrow> a < b"
proof (induction a b rule: strcmp.induct)
  case 1
  then show ?case by simp
next
  case (2 y ys)
  then have "(of_char y :: nat) \<noteq> 0" by (auto simp: of_char_zero_iff)
  then show ?case by simp
next
  case (3 x xs)
  then show ?case by simp
next
  case (4 x xs y ys)
  then show ?case
    by (auto simp: less_char_def)
qed

lemma strcmp_eq_iff:
  "CHR 0x00 \<notin> set a \<Longrightarrow> CHR 0x00 \<notin> set b \<Longrightarrow> strcmp a b = 0 \<longleftrightarrow> a = b"
proof (induction a b rule: strcmp.induct)
  case 1
  then show ?case by simp
next
  case (2 y ys)
  then have "(of_char y :: nat) \<noteq> 0" by (auto simp: of_char_zero_iff)
  then show ?case by simp
next
  case (3 x xs)
  then have "(of_char x :: nat) \<noteq> 0" by (auto simp: of_char_zero_iff)
  then show ?case by simp
next
  case (4 x xs y ys)
  then show ?case by auto
qed

text \<open>
  C1 (as amended). In sort mode \<open>p\<close>, for two records of which exactly one has no
  project, the comparator answers 1 for the pair (no project, project) and 0 for the
  pair the other way round, and \<^verbatim>\<open>sort_tasks\<close> puts the record with no project before the
  record with a project, whatever their order was. Among two records with projects the
  comparator answers 1 exactly when the first project is smaller in the lexicographic
  order of \<^verbatim>\<open>strcmp\<close>, or the projects are equal and the first index is smaller: equal
  projects fall back to mode \<open>n\<close>.
\<close>

theorem compare_tasks_project:
  "(project a = None \<and> project b \<noteq> None \<longrightarrow>
      compare_tasks a b (CHR ''p'') = 1 \<and> compare_tasks b a (CHR ''p'') = 0
      \<and> sort_wrapper (CHR ''p'') [a, b] = Some [a, b]
      \<and> sort_wrapper (CHR ''p'') [b, a] = Some [a, b])
   \<and> (project a = Some pa \<and> project b = Some pb \<and> CHR 0x00 \<notin> set pa \<and> CHR 0x00 \<notin> set pb \<longrightarrow>
      (compare_tasks a b (CHR ''p'') = 1 \<longleftrightarrow> pa < pb \<or> (pa = pb \<and> index a < index b))
      \<and> (pa = pb \<longrightarrow> compare_tasks a b (CHR ''p'') = compare_tasks a b (CHR ''n'')))"
proof (intro conjI impI)
  assume h: "project a = None \<and> project b \<noteq> None"
  then obtain pb' where pb': "project b = Some pb'" by auto
  show ab: "compare_tasks a b (CHR ''p'') = 1"
    using h by (simp add: compare_tasks_p)
  show ba: "compare_tasks b a (CHR ''p'') = 0"
    using h pb' by (simp add: compare_tasks_p)
  show "sort_wrapper (CHR ''p'') [a, b] = Some [a, b]"
    using ab by (simp add: sort_wrapper_pair)
  show "sort_wrapper (CHR ''p'') [b, a] = Some [a, b]"
    using ba by (simp add: sort_wrapper_pair)
next
  assume h: "project a = Some pa \<and> project b = Some pb \<and> CHR 0x00 \<notin> set pa \<and> CHR 0x00 \<notin> set pb"
  then have lt: "strcmp pa pb < 0 \<longleftrightarrow> pa < pb" and eq: "strcmp pa pb = 0 \<longleftrightarrow> pa = pb"
    by (simp_all add: strcmp_less_iff strcmp_eq_iff)
  show "compare_tasks a b (CHR ''p'') = 1 \<longleftrightarrow> pa < pb \<or> (pa = pb \<and> index a < index b)"
    using h lt eq by (auto simp: compare_tasks_p)
  show "compare_tasks a b (CHR ''p'') = compare_tasks a b (CHR ''n'')" if "pa = pb"
    using h eq that by (simp add: compare_tasks_p compare_tasks_n)
qed

theorem compare_tasks_project_witness:
  "project (mk_task 0 None (CHR 0x00) 0) = None
   \<and> project (mk_task 1 (Some ''home'') (CHR 0x00) 0) \<noteq> None
   \<and> sort_wrapper (CHR ''p'') [mk_task 1 (Some ''home'') (CHR 0x00) 0, mk_task 0 None (CHR 0x00) 0]
       = Some [mk_task 0 None (CHR 0x00) 0, mk_task 1 (Some ''home'') (CHR 0x00) 0]
   \<and> project (mk_task 2 (Some ''garden'') (CHR 0x00) 0) = Some ''garden''
   \<and> CHR 0x00 \<notin> set ''garden'' \<and> CHR 0x00 \<notin> set ''home''
   \<and> ''garden'' < ''home''
   \<and> compare_tasks (mk_task 2 (Some ''garden'') (CHR 0x00) 0)
        (mk_task 1 (Some ''home'') (CHR 0x00) 0) (CHR ''p'') = 1"
proof -
  let ?a = "mk_task 0 None (CHR 0x00) 0"
  let ?b = "mk_task 1 (Some ''home'') (CHR 0x00) 0"
  let ?g = "mk_task 2 (Some ''garden'') (CHR 0x00) 0"
  have p: "project ?a = None" "project ?b = Some ''home''" "project ?g = Some ''garden''"
    by (simp_all add: mk_task_def malloc_task_def)
  have z: "CHR 0x00 \<notin> set ''garden''" "CHR 0x00 \<notin> set ''home''" by simp_all
  have l: "''garden'' < ''home''" by (simp add: less_char_def)
  show ?thesis
    using compare_tasks_project[of ?a ?b "''home''" "''home''"]
      compare_tasks_project[of ?g ?b "''garden''" "''home''"] p z l
    by (simp only: option.simps simp_thms)
qed

theorem project_null_first_counterexample:
  "project (mk_task 0 None (CHR 0x00) 0) = None
   \<and> project (mk_task 1 (Some ''home'') (CHR 0x00) 0) = Some ''home''
   \<and> compare_tasks (mk_task 0 None (CHR 0x00) 0) (mk_task 1 (Some ''home'') (CHR 0x00) 0)
        (CHR ''p'') = 1
   \<and> compare_tasks (mk_task 1 (Some ''home'') (CHR 0x00) 0) (mk_task 0 None (CHR 0x00) 0)
        (CHR ''p'') = 0
   \<and> sort_wrapper (CHR ''p'') [mk_task 1 (Some ''home'') (CHR 0x00) 0, mk_task 0 None (CHR 0x00) 0]
       = Some [mk_task 0 None (CHR 0x00) 0, mk_task 1 (Some ''home'') (CHR 0x00) 0]
   \<and> sort_wrapper (CHR ''p'') [mk_task 0 None (CHR 0x00) 0, mk_task 1 (Some ''home'') (CHR 0x00) 0]
       = Some [mk_task 0 None (CHR 0x00) 0, mk_task 1 (Some ''home'') (CHR 0x00) 0]"
  by (simp add: sort_wrapper_pair compare_tasks_p mk_task_def malloc_task_def)

text \<open>
  C4. Two distinct records with the same due time, not 0, in mode \<open>d\<close>: the comparator
  answers 0 for both orders, and \<^verbatim>\<open>sort_tasks\<close> exchanges the two records whichever way
  they stood, so their final order depends on the order they had. The same holds in
  mode \<open>p\<close> for two records without a project.
\<close>

theorem compare_tasks_due_tie:
  "mk_task 0 (Some ''A'') (CHR ''H'') 100 \<noteq> mk_task 1 (Some ''B'') (CHR ''L'') 100
   \<and> compare_tasks (mk_task 0 (Some ''A'') (CHR ''H'') 100) (mk_task 1 (Some ''B'') (CHR ''L'') 100)
        (CHR ''d'') = 0
   \<and> compare_tasks (mk_task 1 (Some ''B'') (CHR ''L'') 100) (mk_task 0 (Some ''A'') (CHR ''H'') 100)
        (CHR ''d'') = 0
   \<and> sort_wrapper (CHR ''d'')
        [mk_task 0 (Some ''A'') (CHR ''H'') 100, mk_task 1 (Some ''B'') (CHR ''L'') 100]
       = Some [mk_task 1 (Some ''B'') (CHR ''L'') 100, mk_task 0 (Some ''A'') (CHR ''H'') 100]
   \<and> sort_wrapper (CHR ''d'')
        [mk_task 1 (Some ''B'') (CHR ''L'') 100, mk_task 0 (Some ''A'') (CHR ''H'') 100]
       = Some [mk_task 0 (Some ''A'') (CHR ''H'') 100, mk_task 1 (Some ''B'') (CHR ''L'') 100]
   \<and> compare_tasks (mk_task 0 None (CHR 0x00) 0) (mk_task 1 None (CHR 0x00) 0) (CHR ''p'') = 0
   \<and> compare_tasks (mk_task 1 None (CHR 0x00) 0) (mk_task 0 None (CHR 0x00) 0) (CHR ''p'') = 0"
  by (simp add: sort_wrapper_pair compare_tasks_d compare_tasks_p mk_task_def malloc_task_def)

subsection \<open>The order after a sort\<close>










subsection \<open>The parser and the rebuild\<close>























end
